theory Spec2Isabelle
  imports Complex_Main "HOL-Library.Sublist"
begin

section \<open>A shallow embedding of quickshear.py\<close>

text \<open>
  The program defaces an anatomical volume: it projects a brain mask onto the sagittal
  plane, marks the edge pixels of the silhouette, sweeps the lower convex hull of the
  edge points, derives a line from the hull's first segment and zeroes the voxels below
  that line.

  Modelling choices.
  \<^item> A numpy array is a nested list; \<open>shape3\<close> reads the shape off the nesting, so an
    array with a zero-length axis is the array \<open>[]\<close> (or a list of empty lists).
  \<^item> Voxel values are integers. Index arithmetic (\<open>int64\<close> in numpy) is done on
    unbounded integers: the coordinates are array indices, and a cross product of index
    differences cannot leave the 64-bit range for an array that fits in memory.
  \<^item> The slope is the result of numpy's true division of two integers (the semantics
    of Python 3). A float is modelled by \<open>float64\<close>: a rational number, or one of the
    three non-finite values of IEEE arithmetic. Finite arithmetic is exact here, so the
    rounding of a double is not modelled.
  \<^item> An uncaught exception is the left injection of a sum type.
  \<^item> The functions of nibabel and numpy that the program calls are modelled by what
    their documentation says: \<open>flip_axis\<close> reverses one axis, \<open>np.roll\<close> shifts
    circularly, \<open>np.nonzero\<close> lists indices in row-major order, \<open>np.diff\<close> takes
    differences along the last axis. \<open>aff2axcodes\<close> is a parameter of the model.
\<close>

subsection \<open>Errors, arrays\<close>

datatype pyerr = ValueError | IndexError | AxisError | IOError

type_synonym 'a array2 = "'a list list"
type_synonym 'a array3 = "'a list list list"

definition shape3 :: "'a array3 \<Rightarrow> nat \<times> nat \<times> nat" where
  "shape3 d =
     (length d,
      (case d of [] \<Rightarrow> 0 | p # _ \<Rightarrow> length p),
      (case d of [] \<Rightarrow> 0 | p # _ \<Rightarrow> (case p of [] \<Rightarrow> 0 | r # _ \<Rightarrow> length r)))"

definition rect2 :: "nat \<Rightarrow> nat \<Rightarrow> 'a array2 \<Rightarrow> bool" where
  "rect2 n m b \<longleftrightarrow> length b = n \<and> (\<forall>r \<in> set b. length r = m)"

definition rect3 :: "nat \<Rightarrow> nat \<Rightarrow> nat \<Rightarrow> 'a array3 \<Rightarrow> bool" where
  "rect3 n0 n1 n2 d \<longleftrightarrow> length d = n0 \<and> (\<forall>p \<in> set d. rect2 n1 n2 p)"

text \<open>A nested list is an array when every plane and every row has the length that
  \<open>shape3\<close> reports.\<close>

definition is_array3 :: "'a array3 \<Rightarrow> bool" where
  "is_array3 d \<longleftrightarrow> (case shape3 d of (n0, n1, n2) \<Rightarrow> rect3 n0 n1 n2 d)"

subsection \<open>\<open>flip_axes\<close> (lines 63 to 78)\<close>

text \<open>\<open>nb.orientations.flip_axis(data, axis)\<close> reverses \<open>data\<close> along \<open>axis\<close>; an axis
  that a three-dimensional array does not have raises.\<close>

definition flip_axis :: "'a array3 \<Rightarrow> nat \<Rightarrow> pyerr + 'a array3" where
  "flip_axis d axis =
     (if axis = 0 then Inr (rev d)
      else if axis = 1 then Inr (map rev d)
      else if axis = 2 then Inr (map (map rev) d)
      else Inl AxisError)"

text \<open>\<open>np.nonzero(flips)[0]\<close>: the indices of the true entries, ascending.\<close>

definition nonzero1 :: "bool list \<Rightarrow> nat list" where
  "nonzero1 v = filter (\<lambda>i. v ! i) [0..<length v]"

fun flip_loop :: "'a array3 \<Rightarrow> nat list \<Rightarrow> pyerr + 'a array3" where
  "flip_loop d [] = Inr d"
| "flip_loop d (axis # axes) =
     (case flip_axis d axis of Inl e \<Rightarrow> Inl e | Inr d' \<Rightarrow> flip_loop d' axes)"

definition flip_axes :: "'a array3 \<Rightarrow> bool list \<Rightarrow> pyerr + 'a array3" where
  "flip_axes d flips = flip_loop d (nonzero1 flips)"

subsection \<open>\<open>edge_mask\<close> (lines 8 to 28)\<close>

text \<open>\<open>mask.any(axis=0)\<close>: the silhouette has shape \<open>(n1, n2)\<close>, true where some
  sagittal position holds a non-zero voxel.\<close>

definition any_axis0 :: "int array3 \<Rightarrow> bool array2" where
  "any_axis0 msk =
     (case shape3 msk of (n0, n1, n2) \<Rightarrow>
        map (\<lambda>j. map (\<lambda>k. list_ex (\<lambda>i. msk ! i ! j ! k \<noteq> 0) [0..<n0]) [0..<n2]) [0..<n1])"

text \<open>\<open>np.roll(xs, shift)\<close> on one axis: the element at \<open>i\<close> comes from
  \<open>(i - shift) mod n\<close>.\<close>

definition roll1 :: "'a list \<Rightarrow> int \<Rightarrow> 'a list" where
  "roll1 xs shift =
     map (\<lambda>i. xs ! nat ((int i - shift) mod int (length xs))) [0..<length xs]"

definition roll :: "'a array2 \<Rightarrow> int \<Rightarrow> nat \<Rightarrow> 'a array2" where
  "roll b shift axis = (if axis = 0 then roll1 b shift else map (\<lambda>r. roll1 r shift) b)"

text \<open>Lines 26 and 27: \<open>4 * brain - roll(brain, 1, 0) - roll(brain, -1, 0) -
  roll(brain, 1, 1) - roll(brain, -1, 1) != 0\<close>, elementwise on integers.\<close>

definition edge2 :: "bool array2 \<Rightarrow> bool array2" where
  "edge2 brain =
     (let up = roll brain 1 0; down = roll brain (- 1) 0;
          left = roll brain 1 1; right = roll brain (- 1) 1
      in map (\<lambda>i. map (\<lambda>j.
             4 * of_bool (brain ! i ! j) - of_bool (up ! i ! j) - of_bool (down ! i ! j)
               - of_bool (left ! i ! j) - of_bool (right ! i ! j) \<noteq> (0::int))
           [0..<length (brain ! i)]) [0..<length brain])"

definition edge_mask :: "int array3 \<Rightarrow> nat array2" where
  "edge_mask msk = map (map of_bool) (edge2 (any_axis0 msk))"

subsection \<open>\<open>convex_hull\<close> (lines 31 to 60)\<close>

type_synonym point = "int \<times> int"

text \<open>Line 49, \<open>np.vstack(np.nonzero(brain)).T\<close>: the (row, column) pairs of the non-zero
  entries, in the row-major order of the traversal.\<close>

definition nonzero2 :: "nat array2 \<Rightarrow> point list" where
  "nonzero2 brain =
     concat (map (\<lambda>i. map (\<lambda>j. (int i, int j))
                        (filter (\<lambda>j. brain ! i ! j \<noteq> 0) [0..<length (brain ! i)]))
                 [0..<length brain])"

text \<open>Lines 51 and 52: \<open>np.cross(a - o, b - o)\<close> of two plane vectors.\<close>

definition cross :: "point \<Rightarrow> point \<Rightarrow> point \<Rightarrow> int" where
  "cross orig a b =
     (fst a - fst orig) * (snd b - snd orig) - (snd a - snd orig) * (fst b - fst orig)"

text \<open>Lines 56 and 57: the inner \<open>while\<close> loop, popping the end of \<open>lower\<close>.\<close>

function pop_loop :: "point list \<Rightarrow> point \<Rightarrow> point list" where
  "pop_loop lower p =
     (if 2 \<le> length lower \<and>
         cross (lower ! (length lower - 2)) (lower ! (length lower - 1)) p \<le> 0
      then pop_loop (butlast lower) p
      else lower)"
  by pat_completeness auto
termination
  by (relation "measure (\<lambda>(lower, p). length lower)") auto

declare pop_loop.simps [simp del]

text \<open>Lines 54 to 58: the sweep over the points.\<close>

definition hull_loop :: "point list \<Rightarrow> point list" where
  "hull_loop pts = foldl (\<lambda>lower p. pop_loop lower p @ [p]) [] pts"

definition hull_points :: "nat array2 \<Rightarrow> point list" where
  "hull_points brain = hull_loop (nonzero2 brain)"

text \<open>Line 60, \<open>np.array(lower).T\<close>: a row of first coordinates and a row of second
  coordinates; the transpose of the empty array is empty.\<close>

definition transpose_points :: "point list \<Rightarrow> int list list" where
  "transpose_points lower = (if lower = [] then [] else [map fst lower, map snd lower])"

definition convex_hull :: "nat array2 \<Rightarrow> int list list" where
  "convex_hull brain = transpose_points (hull_points brain)"

subsection \<open>Floating-point values\<close>

datatype float64 = Fin rat | PInf | NInf | NaN

text \<open>numpy's true division of two integers: a zero divisor gives an infinity or NaN
  (and a warning), never an exception.\<close>

definition true_divide :: "int \<Rightarrow> int \<Rightarrow> float64" where
  "true_divide a b =
     (if b = 0 then (if 0 < a then PInf else if a < 0 then NInf else NaN)
      else Fin (of_int a / of_int b))"

fun fneg :: "float64 \<Rightarrow> float64" where
  "fneg (Fin r) = Fin (- r)"
| "fneg PInf = NInf"
| "fneg NInf = PInf"
| "fneg NaN = NaN"

fun fadd :: "float64 \<Rightarrow> float64 \<Rightarrow> float64" where
  "fadd NaN _ = NaN"
| "fadd _ NaN = NaN"
| "fadd (Fin a) (Fin b) = Fin (a + b)"
| "fadd PInf NInf = NaN"
| "fadd NInf PInf = NaN"
| "fadd PInf _ = PInf"
| "fadd NInf _ = NInf"
| "fadd (Fin a) PInf = PInf"
| "fadd (Fin a) NInf = NInf"

definition fsub :: "float64 \<Rightarrow> float64 \<Rightarrow> float64" where
  "fsub a b = fadd a (fneg b)"

text \<open>The sign of a value that is not NaN, and the infinity of a sign.\<close>

fun fsign :: "float64 \<Rightarrow> int" where
  "fsign (Fin r) = (if 0 < r then 1 else if r < 0 then - 1 else 0)"
| "fsign PInf = 1"
| "fsign NInf = - 1"
| "fsign NaN = 0"

definition finf :: "int \<Rightarrow> float64" where
  "finf s = (if 0 < s then PInf else if s < 0 then NInf else NaN)"

fun fmul :: "float64 \<Rightarrow> float64 \<Rightarrow> float64" where
  "fmul NaN _ = NaN"
| "fmul _ NaN = NaN"
| "fmul (Fin a) (Fin b) = Fin (a * b)"
| "fmul a b = finf (fsign a * fsign b)"

text \<open>\<open>ys > 0\<close>: a comparison with NaN is false.\<close>

fun fpos :: "float64 \<Rightarrow> bool" where
  "fpos (Fin r) = (0 < r)"
| "fpos PInf = True"
| "fpos NInf = False"
| "fpos NaN = False"

text \<open>\<open>astype(int)\<close> truncates towards zero. The cast of a non-finite value is defined by
  the platform; on x86-64 it is the least 64-bit integer.\<close>

definition trunc :: "rat \<Rightarrow> int" where
  "trunc r = (if 0 \<le> r then \<lfloor>r\<rfloor> else \<lceil>r\<rceil>)"

fun astype_int :: "float64 \<Rightarrow> int" where
  "astype_int (Fin r) = trunc r"
| "astype_int _ = - (2 ^ 63)"

subsection \<open>\<open>quickshear\<close> (lines 104 to 137)\<close>

text \<open>\<open>np.diff\<close> along the last axis.\<close>

definition diff :: "int list \<Rightarrow> int list" where
  "diff xs = map2 (\<lambda>a b. b - a) xs (tl xs)"

text \<open>Lines 126 to 129. Unpacking \<open>np.diff(low)\<close> into two names raises ValueError unless
  there are two rows; \<open>ydiffs[0]\<close> and \<open>xdiffs[0]\<close> raise IndexError on an empty row.\<close>

definition shear_line :: "int list list \<Rightarrow> int \<Rightarrow> pyerr + (float64 \<times> float64)" where
  "shear_line low buff =
     (case map diff low of
        [xdiffs, ydiffs] \<Rightarrow>
          (case ydiffs of
             [] \<Rightarrow> Inl IndexError
           | dy # _ \<Rightarrow>
             (case xdiffs of
                [] \<Rightarrow> Inl IndexError
              | dx # _ \<Rightarrow>
                  let slope = true_divide dy dx;
                      yint = fsub (fsub (Fin (of_int (low ! 1 ! 0)))
                                        (fmul (Fin (of_int (low ! 0 ! 0))) slope))
                                  (Fin (of_int buff))
                  in Inr (slope, yint)))
      | _ \<Rightarrow> Inl ValueError)"

text \<open>Line 130: \<open>np.arange(0, mask.shape[2]) * slope + yint\<close>.\<close>

definition line_values :: "nat \<Rightarrow> float64 \<Rightarrow> float64 \<Rightarrow> float64 list" where
  "line_values n slope yint = map (\<lambda>i. fadd (fmul (Fin (of_nat i)) slope) yint) [0..<n]"

text \<open>Line 131: \<open>np.ones(mask.shape, dtype='bool')\<close>.\<close>

definition ones :: "nat \<times> nat \<times> nat \<Rightarrow> bool array3" where
  "ones shp = (case shp of (n0, n1, n2) \<Rightarrow> replicate n0 (replicate n1 (replicate n2 True)))"

text \<open>The end of the slice \<open>:y\<close> on an axis of length \<open>n\<close>: a negative bound counts from
  the end of the axis, and the slice is clipped to the axis.\<close>

definition slice_stop :: "nat \<Rightarrow> int \<Rightarrow> nat" where
  "slice_stop n y = nat (if y < 0 then max 0 (int n + y) else min y (int n))"

text \<open>Line 134, \<open>defaced_mask[:, x, :y] = 0\<close>: an index \<open>x\<close> beyond the second axis raises
  IndexError.\<close>

definition zero_slice ::
  "nat \<times> nat \<times> nat \<Rightarrow> bool array3 \<Rightarrow> nat \<Rightarrow> int \<Rightarrow> pyerr + bool array3" where
  "zero_slice shp m x y =
     (case shp of (n0, n1, n2) \<Rightarrow>
        if n1 \<le> x then Inl IndexError
        else Inr (map (\<lambda>plane.
                    plane[x := replicate (slice_stop n2 y) False
                               @ drop (slice_stop n2 y) (plane ! x)]) m))"

text \<open>Lines 133 and 134: the loop over the zipped pairs.\<close>

fun shear_loop ::
  "nat \<times> nat \<times> nat \<Rightarrow> bool array3 \<Rightarrow> (nat \<times> int) list \<Rightarrow> pyerr + bool array3" where
  "shear_loop shp m [] = Inr m"
| "shear_loop shp m ((x, y) # ps) =
     (case zero_slice shp m x y of Inl e \<Rightarrow> Inl e | Inr m' \<Rightarrow> shear_loop shp m' ps)"

text \<open>Lines 130 to 134: \<open>np.nonzero(ys > 0)[0]\<close> is zipped with \<open>ys.astype(int)\<close>, the
  cast of the whole of \<open>ys\<close>.\<close>

definition keep_mask :: "nat \<times> nat \<times> nat \<Rightarrow> float64 \<Rightarrow> float64 \<Rightarrow> pyerr + bool array3" where
  "keep_mask shp slope yint =
     (case shp of (n0, n1, n2) \<Rightarrow>
        let ys = line_values n2 slope yint
        in shear_loop shp (ones shp)
             (zip (filter (\<lambda>x. fpos (ys ! x)) [0..<length ys]) (map astype_int ys)))"

text \<open>\<open>defaced_mask * anat\<close>, elementwise.\<close>

definition mul3 :: "bool array3 \<Rightarrow> int array3 \<Rightarrow> int array3" where
  "mul3 m a = map2 (map2 (map2 (\<lambda>k v. of_bool k * v))) m a"

record ('aff, 'hdr) image =
  dataobj :: "int array3"
  affine :: 'aff
  header :: 'hdr

type_synonym axcodes = "char option \<times> char option \<times> char option"

text \<open>Lines 81 to 101. The axis codes of an affine come from nibabel; the model takes
  the function as a parameter.\<close>

definition orient_xPS ::
  "('aff \<Rightarrow> axcodes) \<Rightarrow> ('aff, 'hdr) image \<Rightarrow> char \<Rightarrow> pyerr + (int array3 \<times> bool list)" where
  "orient_xPS aff2axcodes img hemi =
     (case aff2axcodes (affine img) of (a0, a1, a2) \<Rightarrow>
        let flips = [a0 \<noteq> Some hemi, a1 \<noteq> Some CHR ''P'', a2 \<noteq> Some CHR ''S'']
        in (case flip_axes (dataobj img) flips of
              Inl e \<Rightarrow> Inl e
            | Inr d \<Rightarrow> Inr (d, flips)))"

text \<open>Lines 126 to 134 together: from the hull array and the buffer to the keep-mask.\<close>

definition shear_mask :: "nat \<times> nat \<times> nat \<Rightarrow> int list list \<Rightarrow> int \<Rightarrow> pyerr + bool array3" where
  "shear_mask shp low buff =
     (case shear_line low buff of
        Inl e \<Rightarrow> Inl e
      | Inr (slope, yint) \<Rightarrow> keep_mask shp slope yint)"

definition quickshear ::
  "('aff \<Rightarrow> axcodes) \<Rightarrow> ('aff, 'hdr) image \<Rightarrow> ('aff, 'hdr) image \<Rightarrow> int
     \<Rightarrow> pyerr + ('aff, 'hdr) image" where
  "quickshear aff2axcodes anat_img mask_img buff =
     (case orient_xPS aff2axcodes anat_img CHR ''R'' of
        Inl e \<Rightarrow> Inl e
      | Inr (anat, anat_flip) \<Rightarrow>
     (case orient_xPS aff2axcodes mask_img CHR ''R'' of
        Inl e \<Rightarrow> Inl e
      | Inr (msk, mask_flip) \<Rightarrow>
     (case shear_mask (shape3 msk) (convex_hull (edge_mask msk)) buff of
        Inl e \<Rightarrow> Inl e
      | Inr defaced_mask \<Rightarrow>
     (case flip_axes (mul3 defaced_mask anat) anat_flip of
        Inl e \<Rightarrow> Inl e
      | Inr d \<Rightarrow> Inr \<lparr>dataobj = d, affine = affine anat_img, header = header anat_img\<rparr>))))"

subsection \<open>\<open>deface\<close> and the command line (lines 140 to 186)\<close>

text \<open>The files that \<open>nb.load\<close> reads and \<open>to_filename\<close> writes, and the messages given to
  the logger. Loading a file that does not exist raises.\<close>

record ('aff, 'hdr) world =
  files :: "string \<rightharpoonup> ('aff, 'hdr) image"
  logged :: "string list"

datatype outcome = Returned | Exited int | Raised pyerr

text \<open>The exit status of the process: \<open>sys.exit(n)\<close> gives the low byte of \<open>n\<close>, an
  uncaught exception gives 1.\<close>

fun exit_status :: "outcome \<Rightarrow> int" where
  "exit_status Returned = 0"
| "exit_status (Exited n) = n mod 256"
| "exit_status (Raised e) = 1"

text \<open>The default of the parameter \<open>buff\<close> of \<open>quickshear\<close> and \<open>deface\<close>.\<close>

definition default_buff :: int where
  "default_buff = 10"

definition deface ::
  "('aff \<Rightarrow> axcodes) \<Rightarrow> ('aff, 'hdr) world \<Rightarrow> string \<Rightarrow> string \<Rightarrow> string \<Rightarrow> int
     \<Rightarrow> outcome \<times> ('aff, 'hdr) world" where
  "deface aff2axcodes w anat_filename mask_filename defaced_filename buff =
     (case files w anat_filename of
        None \<Rightarrow> (Raised IOError, w)
      | Some anat_img \<Rightarrow>
     (case files w mask_filename of
        None \<Rightarrow> (Raised IOError, w)
      | Some mask_img \<Rightarrow>
          if shape3 (dataobj anat_img) \<noteq> shape3 (dataobj mask_img)
          then (Exited (- 1),
                w\<lparr>logged := logged w @
                    [''Anatomical and mask images do not have the same dimensions.'']\<rparr>)
          else (case quickshear aff2axcodes anat_img mask_img buff of
                  Inl e \<Rightarrow> (Raised e, w)
                | Inr new_anat \<Rightarrow>
                    (Returned,
                     w\<lparr>files := (files w)(defaced_filename \<mapsto> new_anat),
                       logged := logged w @ [''Defaced file: '' @ defaced_filename]\<rparr>))))"

text \<open>Lines 172 to 186. \<open>int\<close> is Python's parser of an integer literal, a parameter of the
  model: \<open>None\<close> where it raises. The second call of \<open>deface\<close> (line 186) is not in the
  scope of the \<open>if\<close> of line 180: it runs whenever the first call returns.\<close>

definition main ::
  "(string \<Rightarrow> int option) \<Rightarrow> ('aff \<Rightarrow> axcodes) \<Rightarrow> ('aff, 'hdr) world \<Rightarrow> string list
     \<Rightarrow> outcome \<times> ('aff, 'hdr) world" where
  "main py_int aff2axcodes w argv =
     (if length argv < 4
      then (Exited (- 1),
            w\<lparr>logged := logged w @
                [''Usage: quickshear.py anat_file strip_file defaced_file [buffer]'']\<rparr>)
      else
        let anatfile = argv ! 1; stripfile = argv ! 2; newfile = argv ! 3
        in if 5 \<le> length argv
           then (case py_int (argv ! 4) of
                   None \<Rightarrow> (Raised ValueError, w)
                 | Some buff \<Rightarrow>
                     (case deface aff2axcodes w anatfile stripfile newfile buff of
                        (Returned, w') \<Rightarrow>
                          deface aff2axcodes w' anatfile stripfile newfile default_buff
                      | r \<Rightarrow> r))
           else deface aff2axcodes w anatfile stripfile newfile default_buff)"

subsection \<open>The statements of the specification that are compared with the code\<close>

text \<open>The number of voxels that a keep-mask zeroes.\<close>

definition zeroed :: "bool array3 \<Rightarrow> nat" where
  "zeroed m = length (filter Not (concat (concat m)))"

text \<open>The rasterisation as the specification words it: the position runs along the
  inferior-superior axis (the third), \<open>y = position * slope + intercept\<close>, and where
  \<open>y > 0\<close> the voxels of the anterior-posterior range \<open>[0, y)\<close> (the second axis) are
  zeroed.\<close>

definition spec_zeroed :: "rat \<Rightarrow> rat \<Rightarrow> nat \<Rightarrow> nat \<Rightarrow> bool" where
  "spec_zeroed slope yint ap_index is_index =
     (let y = of_nat is_index * slope + yint in 0 < y \<and> of_nat ap_index < y)"

text \<open>The line as the specification words it, for a hull given as a sequence of points:
  the slope of the leading segment, and the intercept
  \<open>hull[1].second - hull[0].first * slope - buffer\<close>.\<close>

definition spec_slope :: "point list \<Rightarrow> rat" where
  "spec_slope hpts =
     of_int (snd (hpts ! 1) - snd (hpts ! 0)) / of_int (fst (hpts ! 1) - fst (hpts ! 0))"

definition spec_intercept :: "point list \<Rightarrow> int \<Rightarrow> rat" where
  "spec_intercept hpts buff =
     of_int (snd (hpts ! 1)) - of_int (fst (hpts ! 0)) * spec_slope hpts - of_int buff"

subsection \<open>What it means to be a lower hull\<close>

text \<open>The lexicographic order by (first coordinate, second coordinate), strict.\<close>

definition lex_less :: "point \<Rightarrow> point \<Rightarrow> bool" where
  "lex_less a b \<longleftrightarrow> fst a < fst b \<or> (fst a = fst b \<and> snd a < snd b)"

text \<open>Every three consecutive points of the chain make a strict left turn: no vertex is
  collinear with its neighbours or turns right.\<close>

definition turns_left :: "point list \<Rightarrow> bool" where
  "turns_left h \<longleftrightarrow> (\<forall>i. i + 2 < length h \<longrightarrow> 0 < cross (h ! i) (h ! (i + 1)) (h ! (i + 2)))"

text \<open>No point of \<open>Q\<close> lies strictly to the right of an edge of the chain.\<close>

definition supports :: "point list \<Rightarrow> point set \<Rightarrow> bool" where
  "supports h Q \<longleftrightarrow> (\<forall>i. i + 1 < length h \<longrightarrow> (\<forall>q \<in> Q. 0 \<le> cross (h ! i) (h ! (i + 1)) q))"

section \<open>Flips\<close>

lemma nonzero1_three:
  "nonzero1 [a, b, c] = (if a then [0] else []) @ (if b then [1] else []) @ (if c then [2] else [])"
  by (simp add: nonzero1_def upt_rec)

text \<open>
  C8. For every flip vector of three booleans and every three-dimensional array,
  \<open>flip_axes\<close> succeeds, and applying it again with the same vector gives the original
  array back.
\<close>

theorem flip_axes_involution:
  assumes "length flips = 3"
  shows "\<exists>d'. flip_axes d flips = Inr d' \<and> flip_axes d' flips = Inr d"
proof -
  from assms obtain a b c where f: "flips = [a, b, c]"
    by (cases flips; cases "tl flips"; cases "tl (tl flips)") auto
  show ?thesis
    unfolding f flip_axes_def nonzero1_three
    by (cases a; cases b; cases c) (simp_all add: flip_axis_def rev_map o_def)
qed

theorem flip_axes_involution_witness:
  "length [True, False, True] = 3 \<and>
   (\<exists>d'. flip_axes [[[1, 2], [3, 4::int]]] [True, False, True] = Inr d' \<and>
         flip_axes d' [True, False, True] = Inr [[[1, 2], [3, 4]]])"
  using flip_axes_involution [of "[True, False, True]" "[[[1, 2], [3, 4::int]]]"] by simp

section \<open>Edge extraction\<close>

lemma nat_shift_back: "i < n \<Longrightarrow> nat ((int i - 1) mod int n) = (i + n - 1) mod n"
proof (cases i)
  case 0
  assume "i < n"
  then show ?thesis using 0 by (cases n) (simp_all add: zmod_minus1)
next
  case (Suc k)
  assume "i < n"
  then show ?thesis using Suc by (simp add: nat_mod_distrib)
qed

lemma nat_shift_fwd: "i < n \<Longrightarrow> nat ((int i - (- 1)) mod int n) = (i + 1) mod n"
  by (simp add: nat_mod_distrib nat_add_distrib)

lemma roll1_length [simp]: "length (roll1 xs s) = length xs"
  by (simp add: roll1_def)

lemma roll1_back: "i < length xs \<Longrightarrow> roll1 xs 1 ! i = xs ! ((i + length xs - 1) mod length xs)"
  by (simp add: roll1_def nat_shift_back)

lemma roll1_fwd: "i < length xs \<Longrightarrow> roll1 xs (- 1) ! i = xs ! ((i + 1) mod length xs)"
  using nat_shift_fwd[of i "length xs"] by (simp add: roll1_def)

lemma edge2_nth:
  assumes "rect2 n m brain" "i < n" "j < m"
  shows "edge2 brain ! i ! j =
     (4 * of_bool (brain ! i ! j)
        - of_bool (brain ! ((i + n - 1) mod n) ! j) - of_bool (brain ! ((i + 1) mod n) ! j)
        - of_bool (brain ! i ! ((j + m - 1) mod m)) - of_bool (brain ! i ! ((j + 1) mod m))
      \<noteq> (0::int))"
proof -
  have len: "length brain = n" and row: "length (brain ! i) = m"
    using assms by (auto simp: rect2_def)
  show ?thesis
    using assms(2,3) by (simp add: edge2_def Let_def roll_def len row roll1_back roll1_fwd)
qed

lemma edge2_rect: "rect2 n m brain \<Longrightarrow> rect2 n m (edge2 brain)"
  by (auto simp: rect2_def edge2_def Let_def)

lemma edge2_uniform:
  assumes "rect2 n m brain" "\<forall>i<n. \<forall>j<m. brain ! i ! j = c" "i < n" "j < m"
  shows "\<not> edge2 brain ! i ! j"
proof -
  have b: "(i + n - 1) mod n < n" "(i + 1) mod n < n" "(j + m - 1) mod m < m" "(j + 1) mod m < m"
    using assms(3,4) by simp_all
  have v: "brain ! i ! j = c" "brain ! ((i + n - 1) mod n) ! j = c"
    "brain ! ((i + 1) mod n) ! j = c" "brain ! i ! ((j + m - 1) mod m) = c"
    "brain ! i ! ((j + 1) mod m) = c"
    using assms(2,3,4) b by blast+
  show ?thesis
    unfolding edge2_nth [OF assms(1,3,4)] v by simp
qed

text \<open>
  C10. For every two-dimensional boolean silhouette \<open>brain\<close> of shape \<open>(n, m)\<close>, the edge
  map has the same shape; its entry at \<open>(i, j)\<close> is true exactly when
  \<open>4 * self - up - down - left - right\<close> is not zero, the four neighbours being looked up
  on the torus (indices modulo \<open>n\<close> and \<open>m\<close>); a silhouette whose entries are all equal
  (all true or all false) has an all-false edge map. \<open>edge2\<close> is a total function: it
  has no failure mode.
\<close>

theorem edge_extraction:
  assumes "rect2 n m brain"
  shows "rect2 n m (edge2 brain) \<and>
    (\<forall>i<n. \<forall>j<m. edge2 brain ! i ! j =
       (4 * of_bool (brain ! i ! j)
          - of_bool (brain ! ((i + n - 1) mod n) ! j) - of_bool (brain ! ((i + 1) mod n) ! j)
          - of_bool (brain ! i ! ((j + m - 1) mod m)) - of_bool (brain ! i ! ((j + 1) mod m))
        \<noteq> (0::int))) \<and>
    ((\<forall>i<n. \<forall>j<m. brain ! i ! j = c) \<longrightarrow> (\<forall>i<n. \<forall>j<m. \<not> edge2 brain ! i ! j))"
proof (intro conjI allI impI)
  show "rect2 n m (edge2 brain)"
    by (rule edge2_rect [OF assms])
next
  fix i j assume "i < n" "j < m"
  then show "edge2 brain ! i ! j =
       (4 * of_bool (brain ! i ! j)
          - of_bool (brain ! ((i + n - 1) mod n) ! j) - of_bool (brain ! ((i + 1) mod n) ! j)
          - of_bool (brain ! i ! ((j + m - 1) mod m)) - of_bool (brain ! i ! ((j + 1) mod m))
        \<noteq> (0::int))"
    by (rule edge2_nth [OF assms])
next
  fix i j assume "\<forall>i<n. \<forall>j<m. brain ! i ! j = c" "i < n" "j < m"
  then show "\<not> edge2 brain ! i ! j"
    by (rule edge2_uniform [OF assms])
qed

theorem edge_extraction_witness:
  "rect2 2 2 [[True, True], [True, True]] \<and>
   rect2 2 2 (edge2 [[True, True], [True, True]]) \<and>
   \<not> edge2 [[True, True], [True, True]] ! 0 ! 0 \<and>
   \<not> edge2 [[True, True], [True, True]] ! 0 ! 1 \<and>
   \<not> edge2 [[True, True], [True, True]] ! 1 ! 0 \<and>
   \<not> edge2 [[True, True], [True, True]] ! 1 ! 1"
proof -
  have h: "rect2 2 2 [[True, True], [True, True]]"
    by (simp add: rect2_def)
  have u: "\<forall>i<2. \<forall>j<2. [[True, True], [True, True]] ! i ! j = True"
    by (simp add: less_Suc_eq numeral_2_eq_2)
  from edge_extraction [OF h, of True] u
  have r: "rect2 2 2 (edge2 [[True, True], [True, True]])"
    and z: "\<forall>i<2. \<forall>j<2. \<not> edge2 [[True, True], [True, True]] ! i ! j"
    by blast+
  from z have "\<not> edge2 [[True, True], [True, True]] ! 0 ! 0"
    "\<not> edge2 [[True, True], [True, True]] ! 0 ! 1"
    "\<not> edge2 [[True, True], [True, True]] ! 1 ! 0"
    "\<not> edge2 [[True, True], [True, True]] ! 1 ! 1"
    by simp_all
  with h r show ?thesis by blast
qed

section \<open>The command line\<close>

lemma deface_mismatch:
  assumes "files w a = Some anat_img" "files w s = Some mask_img"
    "shape3 (dataobj anat_img) \<noteq> shape3 (dataobj mask_img)"
  shows "deface axc w a s n b =
     (Exited (- 1),
      w\<lparr>logged := logged w @ [''Anatomical and mask images do not have the same dimensions.'']\<rparr>)"
  using assms by (simp add: deface_def)

text \<open>
  C6. When the anatomical and the mask volume that \<open>deface\<close> loads differ in shape,
  \<open>deface\<close> leaves through \<open>sys.exit(-1)\<close> whatever the buffer, before \<open>quickshear\<close>
  is called (the result does not depend on it), and the files are as before: no output
  is written. The program as a whole, run with at least the three file arguments, ends
  with a non-zero exit status and has written no file.
\<close>

theorem shape_mismatch_exits:
  assumes "files w (argv ! 1) = Some anat_img" "files w (argv ! 2) = Some mask_img"
    "shape3 (dataobj anat_img) \<noteq> shape3 (dataobj mask_img)" "4 \<le> length argv"
  shows "fst (deface axc w (argv ! 1) (argv ! 2) (argv ! 3) b) = Exited (- 1) \<and>
         files (snd (deface axc w (argv ! 1) (argv ! 2) (argv ! 3) b)) = files w \<and>
         exit_status (fst (main py_int axc w argv)) \<noteq> 0 \<and>
         files (snd (main py_int axc w argv)) = files w"
proof -
  have d: "deface axc w (argv ! 1) (argv ! 2) (argv ! 3) b' =
     (Exited (- 1),
      w\<lparr>logged := logged w @ [''Anatomical and mask images do not have the same dimensions.'']\<rparr>)"
    for b'
    by (rule deface_mismatch [OF assms(1,2,3)])
  have m: "exit_status (fst (main py_int axc w argv)) \<noteq> 0 \<and>
         files (snd (main py_int axc w argv)) = files w"
    using assms(4) by (simp add: main_def Let_def d split: option.splits del: One_nat_def)
  show ?thesis using m by (simp add: d del: One_nat_def)
qed

theorem shape_mismatch_exits_witness:
  "exit_status (fst (main (\<lambda>_. None) (\<lambda>_. (Some CHR ''R'', Some CHR ''P'', Some CHR ''S''))
       \<lparr>files = [''a'' \<mapsto> \<lparr>dataobj = [[[7, 8], [9, 4]]], affine = (), header = ()\<rparr>,
                 ''m'' \<mapsto> \<lparr>dataobj = [[[1, 0, 0], [0, 0, 0]]], affine = (), header = ()\<rparr>],
         logged = []\<rparr>
       [''quickshear.py'', ''a'', ''m'', ''o''])) \<noteq> 0 \<and>
   files (snd (main (\<lambda>_. None) (\<lambda>_. (Some CHR ''R'', Some CHR ''P'', Some CHR ''S''))
       \<lparr>files = [''a'' \<mapsto> \<lparr>dataobj = [[[7, 8], [9, 4]]], affine = (), header = ()\<rparr>,
                 ''m'' \<mapsto> \<lparr>dataobj = [[[1, 0, 0], [0, 0, 0]]], affine = (), header = ()\<rparr>],
         logged = []\<rparr>
       [''quickshear.py'', ''a'', ''m'', ''o''])) ''o'' = None"
proof -
  let ?A = "\<lparr>dataobj = [[[7, 8], [9, 4::int]]], affine = (), header = ()\<rparr>"
  let ?M = "\<lparr>dataobj = [[[1, 0, 0], [0, 0, 0::int]]], affine = (), header = ()\<rparr>"
  let ?w = "\<lparr>files = [''a'' \<mapsto> ?A, ''m'' \<mapsto> ?M], logged = []\<rparr>"
  let ?argv = "[''quickshear.py'', ''a'', ''m'', ''o'']"
  have h1: "files ?w (?argv ! 1) = Some ?A" by simp
  have h2: "files ?w (?argv ! 2) = Some ?M" by simp
  have h3: "shape3 (dataobj ?A) \<noteq> shape3 (dataobj ?M)" by (simp add: shape3_def)
  have h4: "4 \<le> length ?argv" by simp
  from shape_mismatch_exits [OF h1 h2 h3 h4, of "\<lambda>_. (Some CHR ''R'', Some CHR ''P'', Some CHR ''S'')" 0 "\<lambda>_. None"]
  show ?thesis by simp
qed







section \<open>The shear line\<close>

lemma shear_line_two:
  "shear_line (transpose_points (p0 # p1 # rest)) buff =
     Inr (true_divide (snd p1 - snd p0) (fst p1 - fst p0),
          fsub (fsub (Fin (of_int (snd p0)))
                     (fmul (Fin (of_int (fst p0))) (true_divide (snd p1 - snd p0) (fst p1 - fst p0))))
               (Fin (of_int buff)))"
  by (simp add: shear_line_def transpose_points_def diff_def Let_def)

text \<open>
  C2, as amended. For every hull of at least two points whose leading segment has a
  non-zero run, and every buffer, the slope is the leading segment's
  \<open>\<Delta>second / \<Delta>first\<close> and the intercept is
  \<open>hull[0].second - hull[0].first * slope - buffer\<close>: the second coordinate is that of
  the first hull point (\<open>low[1][0]\<close> reads row 1, column 0 of the transposed array), so
  that the line passes \<open>buffer\<close> below the first hull point.
\<close>

theorem shear_line_intercept:
  assumes "2 \<le> length hpts" "fst (hpts ! 1) \<noteq> fst (hpts ! 0)"
  shows "shear_line (transpose_points hpts) buff =
     Inr (Fin (spec_slope hpts),
          Fin (of_int (snd (hpts ! 0)) - of_int (fst (hpts ! 0)) * spec_slope hpts - of_int buff))"
proof -
  from assms(1) obtain p0 p1 rest where h: "hpts = p0 # p1 # rest"
    by (cases hpts; cases "tl hpts") auto
  show ?thesis
    using assms(2) unfolding h shear_line_two
    by (simp add: true_divide_def spec_slope_def fsub_def)
qed

text \<open>
  C2 as stated fails: for the hull \<open>(0, 5), (2, 1)\<close> and buffer 0 the code's intercept is 5,
  where \<open>hull[1].second - hull[0].first * slope - buffer\<close> is 1.
\<close>

theorem shear_line_intercept_counterexample:
  "shear_line (transpose_points [(0, 5), (2, 1)]) 0
     \<noteq> Inr (Fin (spec_slope [(0, 5), (2, 1)]), Fin (spec_intercept [(0, 5), (2, 1)] 0)) \<and>
   shear_line (transpose_points [(0, 5), (2, 1)]) 0 = Inr (Fin (- 2), Fin 5) \<and>
   spec_slope [(0, 5), (2, 1)] = - 2 \<and>
   spec_intercept [(0, 5), (2, 1)] 0 = 1"
  by (simp add: shear_line_two true_divide_def spec_slope_def spec_intercept_def fsub_def)

theorem shear_line_intercept_witness:
  "2 \<le> length [(0, 5), (2, 1) :: point] \<and> fst ([(0, 5), (2, 1) :: point] ! 1) \<noteq> fst ([(0, 5), (2, 1) :: point] ! 0) \<and>
   shear_line (transpose_points [(0, 5), (2, 1)]) 0 = Inr (Fin (- 2), Fin 5)"
  using shear_line_intercept [of "[(0, 5), (2, 1)]" 0]
  by (simp add: spec_slope_def)

lemma slice_stop_le: "slice_stop n y \<le> n"
  unfolding slice_stop_def by (cases "y < 0") simp_all

lemma rect3_lengths:
  assumes "rect3 n0 n1 n2 m"
  shows "length m = n0" "i < n0 \<Longrightarrow> length (m ! i) = n1"
    "i < n0 \<Longrightarrow> j < n1 \<Longrightarrow> length (m ! i ! j) = n2"
proof -
  show l: "length m = n0" using assms by (simp add: rect3_def)
  have r: "rect2 n1 n2 (m ! i)" if "i < n0"
  proof -
    have "m ! i \<in> set m" using that l by simp
    then show ?thesis using assms by (simp add: rect3_def)
  qed
  show "length (m ! i) = n1" if "i < n0"
    using r [OF that] by (simp add: rect2_def)
  show "length (m ! i ! j) = n2" if "i < n0" "j < n1"
  proof -
    have "m ! i ! j \<in> set (m ! i)" using that r [OF that(1)] by (simp add: rect2_def)
    then show ?thesis using r [OF that(1)] by (simp add: rect2_def)
  qed
qed

lemma zero_row_nth:
  assumes "length r = n" "k < n" "s \<le> n"
  shows "(replicate s False @ drop s r) ! k = (r ! k \<and> \<not> k < s)"
  using assms by (simp add: nth_append)

lemma zero_slice_ok:
  assumes "rect3 n0 n1 n2 m" "x < n1"
  shows "\<exists>m'. zero_slice (n0, n1, n2) m x y = Inr m' \<and> rect3 n0 n1 n2 m' \<and>
     (\<forall>i<n0. \<forall>j<n1. \<forall>k<n2. m' ! i ! j ! k = (m ! i ! j ! k \<and> \<not> (j = x \<and> k < slice_stop n2 y)))"
proof -
  let ?s = "slice_stop n2 y"
  let ?m' = "map (\<lambda>plane. plane[x := replicate ?s False @ drop ?s (plane ! x)]) m"
  have z: "zero_slice (n0, n1, n2) m x y = Inr ?m'"
    using assms(2) by (simp add: zero_slice_def)
  have len: "length m = n0" by (rule rect3_lengths(1) [OF assms(1)])
  have pl: "length (m ! i) = n1" if "i < n0" for i
    using that by (rule rect3_lengths(2) [OF assms(1)])
  have rw: "length (m ! i ! j) = n2" if "i < n0" "j < n1" for i j
    using that by (rule rect3_lengths(3) [OF assms(1)])
  have r: "rect3 n0 n1 n2 ?m'"
    using assms slice_stop_le [of n2 y]
    by (auto simp: rect3_def rect2_def dest!: set_update_subset_insert [THEN subsetD])
  have v: "?m' ! i ! j ! k = (m ! i ! j ! k \<and> \<not> (j = x \<and> k < ?s))"
    if "i < n0" "j < n1" "k < n2" for i j k
  proof (cases "j = x")
    case True
    then show ?thesis
      using that len pl [OF that(1)] rw [OF that(1,2)] slice_stop_le [of n2 y]
      by (simp add: zero_row_nth [where n = n2])
  next
    case False
    then show ?thesis using that len by simp
  qed
  show ?thesis using z r v by blast
qed

section \<open>The keep-mask\<close>

lemma shear_loop_ok:
  assumes "rect3 n0 n1 n2 m" "\<forall>(x, y) \<in> set ps. x < n1"
  shows "\<exists>m'. shear_loop (n0, n1, n2) m ps = Inr m' \<and> rect3 n0 n1 n2 m' \<and>
     (\<forall>i<n0. \<forall>j<n1. \<forall>k<n2.
        m' ! i ! j ! k = (m ! i ! j ! k \<and> \<not> (\<exists>y. (j, y) \<in> set ps \<and> k < slice_stop n2 y)))"
  using assms
proof (induction ps arbitrary: m)
  case Nil
  then show ?case by simp
next
  case (Cons xy ps)
  obtain x y where xy: "xy = (x, y)" by (cases xy)
  have x: "x < n1" using Cons.prems(2) xy by simp
  from zero_slice_ok [OF Cons.prems(1) x, of y] obtain m1 where
    z: "zero_slice (n0, n1, n2) m x y = Inr m1" and r1: "rect3 n0 n1 n2 m1" and
    v1: "\<forall>i<n0. \<forall>j<n1. \<forall>k<n2. m1 ! i ! j ! k = (m ! i ! j ! k \<and> \<not> (j = x \<and> k < slice_stop n2 y))"
    by blast
  have "\<forall>(x, y) \<in> set ps. x < n1" using Cons.prems(2) by simp
  from Cons.IH [OF r1 this] obtain m' where
    s: "shear_loop (n0, n1, n2) m1 ps = Inr m'" and r': "rect3 n0 n1 n2 m'" and
    v': "\<forall>i<n0. \<forall>j<n1. \<forall>k<n2.
        m' ! i ! j ! k = (m1 ! i ! j ! k \<and> \<not> (\<exists>y. (j, y) \<in> set ps \<and> k < slice_stop n2 y))"
    by blast
  have e: "shear_loop (n0, n1, n2) m (xy # ps) = Inr m'"
    by (simp add: xy z s)
  have "m' ! i ! j ! k = (m ! i ! j ! k \<and> \<not> (\<exists>y'. (j, y') \<in> set (xy # ps) \<and> k < slice_stop n2 y'))"
    if "i < n0" "j < n1" "k < n2" for i j k
    using v1 v' that xy by auto
  then show ?case using e r' by blast
qed

lemma shear_loop_err:
  assumes "\<exists>(x, y) \<in> set ps. n1 \<le> x"
  shows "shear_loop (n0, n1, n2) m ps = Inl IndexError"
  using assms
proof (induction ps arbitrary: m)
  case Nil
  then show ?case by simp
next
  case (Cons xy ps)
  obtain x y where xy: "xy = (x, y)" by (cases xy)
  show ?case
  proof (cases "n1 \<le> x")
    case True
    then show ?thesis by (simp add: xy zero_slice_def)
  next
    case False
    then have "\<exists>(x, y) \<in> set ps. n1 \<le> x" using Cons.prems xy by auto
    from Cons.IH [OF this] show ?thesis
      using False by (simp add: xy zero_slice_def)
  qed
qed

lemma filter_prefix:
  assumes "\<And>x y. x \<le> y \<Longrightarrow> y < n \<Longrightarrow> P y \<Longrightarrow> P x"
  shows "filter P [0..<n] = [0..<length (filter P [0..<n])]"
  using assms
proof (induction n)
  case 0
  then show ?case by simp
next
  case (Suc n)
  have ih: "filter P [0..<n] = [0..<length (filter P [0..<n])]"
    using Suc.prems by (intro Suc.IH) auto
  show ?case
  proof (cases "P n")
    case True
    have "\<forall>x \<in> set [0..<n]. P x" using Suc.prems [of _ n] True by auto
    then have "filter P [0..<n] = [0..<n]" by (simp only: filter_True)
    then show ?thesis using True by simp
  next
    case False
    then show ?thesis using ih by simp
  qed
qed

lemma ones_rect: "rect3 n0 n1 n2 (ones (n0, n1, n2))"
  by (simp add: ones_def rect3_def rect2_def)

lemma ones_nth: "i < n0 \<Longrightarrow> j < n1 \<Longrightarrow> k < n2 \<Longrightarrow> ones (n0, n1, n2) ! i ! j ! k"
  by (simp add: ones_def)

lemma trunc_pos: "0 < r \<Longrightarrow> 0 \<le> trunc r"
  by (simp add: trunc_def)

lemma slice_stop_nonneg: "0 \<le> t \<Longrightarrow> k < n \<Longrightarrow> k < slice_stop n t \<longleftrightarrow> int k < t"
  by (auto simp: slice_stop_def)

lemma line_values_nth:
  "x < n \<Longrightarrow> line_values n (Fin s) (Fin c) ! x = Fin (of_nat x * s + c)"
  by (simp add: line_values_def)

lemma line_values_length [simp]: "length (line_values n slope yint) = n"
  by (simp add: line_values_def)

lemma line_downward:
  fixes s c :: rat
  assumes "s \<le> 0 \<or> 0 < c" "x \<le> y" "0 < of_nat y * s + c"
  shows "0 < of_nat x * s + c"
proof (cases "s \<le> 0")
  case True
  have "of_nat y * s \<le> of_nat x * s"
    using True assms(2) by (intro mult_right_mono_neg) simp_all
  then show ?thesis using assms(3) by linarith
next
  case False
  then have "0 < c" "0 \<le> of_nat x * s" using assms(1) by simp_all
  then show ?thesis by linarith
qed

lemma zip_upt_mem:
  assumes "m \<le> length zs"
  shows "(j, y) \<in> set (zip [0..<m] zs) \<longleftrightarrow> j < m \<and> y = zs ! j"
proof
  assume "(j, y) \<in> set (zip [0..<m] zs)"
  then obtain n where "[0..<m] ! n = j" "zs ! n = y" "n < m"
    by (auto simp: in_set_zip)
  then show "j < m \<and> y = zs ! j" by auto
next
  assume a: "j < m \<and> y = zs ! j"
  then have "[0..<m] ! j = j \<and> zs ! j = y \<and> j < length [0..<m] \<and> j < length zs"
    using assms by simp
  then show "(j, y) \<in> set (zip [0..<m] zs)"
    unfolding in_set_zip by (intro exI [of _ j]) simp
qed

lemma keep_mask_pairs:
  fixes n2 :: nat
  assumes "s \<le> 0 \<or> 0 < c" and ys: "ys = line_values n2 (Fin s) (Fin c)"
  shows "(j, y) \<in> set (zip (filter (\<lambda>x. fpos (ys ! x)) [0..<length ys]) (map astype_int ys))
     \<longleftrightarrow> j < n2 \<and> 0 < of_nat j * s + c \<and> y = trunc (of_nat j * s + c)"
proof -
  let ?P = "\<lambda>x. fpos (ys ! x)"
  let ?m = "length (filter ?P [0..<n2])"
  have len: "length ys = n2" by (simp add: ys)
  have P: "?P x \<longleftrightarrow> 0 < of_nat x * s + c" if "x < n2" for x
    using that by (simp add: ys line_values_nth)
  have "filter ?P [0..<n2] = [0..<?m]"
  proof (rule filter_prefix)
    fix x y assume "x \<le> y" "y < n2" "?P y"
    then show "?P x" using line_downward [OF assms(1), of x y] P [of x] P [of y] by simp
  qed
  then have idx: "filter ?P [0..<length ys] = [0..<?m]" by (simp add: len)
  have mle: "?m \<le> n2" using length_filter_le [of ?P "[0..<n2]"] by simp
  have mem: "j < ?m \<longleftrightarrow> j < n2 \<and> ?P j"
  proof -
    have "j \<in> set (filter ?P [0..<n2]) \<longleftrightarrow> j \<in> set [0..<?m]"
      using \<open>filter ?P [0..<n2] = [0..<?m]\<close> by simp
    then show ?thesis by simp
  qed
  have "(j, y) \<in> set (zip [0..<?m] (map astype_int ys)) \<longleftrightarrow> j < ?m \<and> y = astype_int (ys ! j)"
    using mle len by (auto simp: zip_upt_mem)
  also have "\<dots> \<longleftrightarrow> j < n2 \<and> 0 < of_nat j * s + c \<and> y = trunc (of_nat j * s + c)"
    using mem P [of j] by (auto simp: ys line_values_nth)
  finally show ?thesis by (simp only: idx)
qed

lemma keep_mask_aligned:
  assumes "s \<le> 0 \<or> 0 < c" "\<forall>x<n2. 0 < of_nat x * s + c \<longrightarrow> x < n1"
  shows "\<exists>km. keep_mask (n0, n1, n2) (Fin s) (Fin c) = Inr km \<and> rect3 n0 n1 n2 km \<and>
     (\<forall>i<n0. \<forall>x<n1. \<forall>k<n2.
        km ! i ! x ! k =
          (\<not> (x < n2 \<and> 0 < of_nat x * s + c \<and> int k < trunc (of_nat x * s + c))))"
proof -
  define ys where "ys = line_values n2 (Fin s) (Fin c)"
  define ps where "ps = zip (filter (\<lambda>x. fpos (ys ! x)) [0..<length ys]) (map astype_int ys)"
  have mem: "(j, y) \<in> set ps \<longleftrightarrow> j < n2 \<and> 0 < of_nat j * s + c \<and> y = trunc (of_nat j * s + c)"
    for j y
    unfolding ps_def by (rule keep_mask_pairs [OF assms(1) ys_def])
  have km: "keep_mask (n0, n1, n2) (Fin s) (Fin c) = shear_loop (n0, n1, n2) (ones (n0, n1, n2)) ps"
    by (simp add: keep_mask_def Let_def ps_def ys_def)
  have "\<forall>(x, y) \<in> set ps. x < n1"
    using mem assms(2) by auto
  from shear_loop_ok [OF ones_rect this] obtain m' where
    s: "shear_loop (n0, n1, n2) (ones (n0, n1, n2)) ps = Inr m'" and r: "rect3 n0 n1 n2 m'" and
    v: "\<forall>i<n0. \<forall>j<n1. \<forall>k<n2.
        m' ! i ! j ! k = (ones (n0, n1, n2) ! i ! j ! k \<and>
           \<not> (\<exists>y. (j, y) \<in> set ps \<and> k < slice_stop n2 y))"
    by blast
  have "m' ! i ! x ! k =
          (\<not> (x < n2 \<and> 0 < of_nat x * s + c \<and> int k < trunc (of_nat x * s + c)))"
    if "i < n0" "x < n1" "k < n2" for i x k
  proof -
    have "m' ! i ! x ! k = (\<not> (\<exists>y. (x, y) \<in> set ps \<and> k < slice_stop n2 y))"
      using v that by (simp add: ones_nth)
    also have "\<dots> = (\<not> (x < n2 \<and> 0 < of_nat x * s + c \<and> k < slice_stop n2 (trunc (of_nat x * s + c))))"
      by (auto simp: mem)
    also have "\<dots> = (\<not> (x < n2 \<and> 0 < of_nat x * s + c \<and> int k < trunc (of_nat x * s + c)))"
      using slice_stop_nonneg [OF trunc_pos that(3), of "of_nat x * s + c"] by auto
    finally show ?thesis .
  qed
  then show ?thesis using km s r by auto
qed

text \<open>
  C1, as amended. Let the slope \<open>s\<close> and the intercept \<open>c\<close> be finite with \<open>s \<le> 0\<close> or
  \<open>c > 0\<close> (the positions whose line value is positive then form an initial segment),
  and let no such position lie beyond the second axis. Then the keep-mask is built
  without error and has the shape of the volume. For every position \<open>x\<close> below
  \<open>shape[2]\<close>, taken as an index along the second array axis (anterior-posterior), with
  \<open>y = x * s + c\<close>: when \<open>y > 0\<close> the voxels at that position with a third-axis
  (inferior-superior) index below \<open>y\<close> truncated to an integer are zeroed, for all
  sagittal indices; every other voxel of the keep-mask stays true, in particular all of
  a position with \<open>y \<le> 0\<close>.
\<close>

theorem rasterization:
  assumes "s \<le> 0 \<or> 0 < c" "\<forall>x<n2. 0 < of_nat x * s + c \<longrightarrow> x < n1"
  shows "\<exists>km. keep_mask (n0, n1, n2) (Fin s) (Fin c) = Inr km \<and> rect3 n0 n1 n2 km \<and>
     (\<forall>i<n0. \<forall>x<n1. \<forall>k<n2.
        km ! i ! x ! k =
          (\<not> (x < n2 \<and> 0 < of_nat x * s + c \<and> int k < trunc (of_nat x * s + c))))"
  using assms by (rule keep_mask_aligned)

theorem rasterization_witness:
  "\<exists>km. keep_mask (1, 3, 3) (Fin (- 2)) (Fin 2) = Inr km \<and> rect3 1 3 3 km \<and>
     \<not> km ! 0 ! 0 ! 0 \<and> \<not> km ! 0 ! 0 ! 1 \<and> km ! 0 ! 0 ! 2 \<and> km ! 0 ! 1 ! 0"
proof -
  have h1: "(- 2 :: rat) \<le> 0 \<or> (0 :: rat) < 2" by simp
  have h2: "\<forall>x<3. 0 < of_nat x * (- 2 :: rat) + 2 \<longrightarrow> x < (3::nat)" by simp
  from rasterization [OF h1 h2, of 1] obtain km where
    k: "keep_mask (1, 3, 3) (Fin (- 2)) (Fin 2) = Inr km" and r: "rect3 1 3 3 km" and
    v: "\<forall>i<1. \<forall>x<3. \<forall>k<3. km ! i ! x ! k =
          (\<not> (x < 3 \<and> 0 < of_nat x * (- 2 :: rat) + 2 \<and> int k < trunc (of_nat x * (- 2) + 2)))"
    by blast
  have "km ! 0 ! 0 ! 0 = False" "km ! 0 ! 0 ! 1 = False" "km ! 0 ! 0 ! 2 = True"
    "km ! 0 ! 1 ! 0 = True"
    using v by (simp_all add: trunc_def)
  then show ?thesis using k r by blast
qed

text \<open>
  C1 as stated fails. With slope \<open>-2\<close> and intercept 2 on a volume of shape \<open>(1, 3, 3)\<close>
  the code zeroes the voxels \<open>(0, 0, 0)\<close> and \<open>(0, 0, 1)\<close>: the position indexes the second
  axis and the range runs along the third. The specification's wording, with the
  position on the inferior-superior axis and the range along the anterior-posterior
  axis, keeps the voxel at anterior-posterior index 0, inferior-superior index 1, and
  zeroes the one at anterior-posterior index 1, inferior-superior index 0.
\<close>

theorem rasterization_counterexample:
  "keep_mask (1, 3, 3) (Fin (- 2)) (Fin 2)
     = Inr [[[False, False, True], [True, True, True], [True, True, True]]] \<and>
   \<not> spec_zeroed (- 2) 2 0 1 \<and> spec_zeroed (- 2) 2 1 0"
  by code_simp

text \<open>
  Outside the hypothesis of the amended statement the pairing of line 133 goes astray:
  the indices of the positive line values are zipped with the casts of the first line
  values. With slope 1 and intercept \<open>-1\<close> the only positive position is 2, with line
  value 1; it is paired with the cast of the line value of position 0, which is \<open>-1\<close>,
  and the slice \<open>:-1\<close> zeroes two voxels instead of one.
\<close>

lemma keep_mask_misaligned_example:
  "keep_mask (1, 3, 3) (Fin 1) (Fin (- 1))
     = Inr [[[True, True, True], [True, True, True], [False, False, True]]]"
  by code_simp

section \<open>The buffer\<close>

lemma sum_list_mono_nth:
  fixes f g :: "'a \<Rightarrow> nat"
  assumes "length xs = length ys" "\<forall>i<length xs. f (xs ! i) \<le> g (ys ! i)"
  shows "sum_list (map f xs) \<le> sum_list (map g ys)"
  using assms
proof (induction xs ys rule: list_induct2)
  case Nil
  then show ?case by simp
next
  case (Cons x xs y ys)
  have "f x \<le> g y" using Cons.prems by (auto dest: spec [of _ 0])
  moreover have "\<forall>i<length xs. f (xs ! i) \<le> g (ys ! i)"
    using Cons.prems by (auto dest: spec [of _ "Suc i" for i])
  ultimately show ?case using Cons.IH by simp
qed

lemma zeroed_sum:
  "zeroed m = sum_list (map (\<lambda>p. sum_list (map (\<lambda>r. length (filter Not r)) p)) m)"
  unfolding zeroed_def by (induction m) (simp_all add: filter_concat length_concat o_def)

lemma count_row_mono:
  assumes "length r = length r'" "\<forall>k<length r. \<not> r ! k \<longrightarrow> \<not> r' ! k"
  shows "length (filter Not r) \<le> length (filter Not r')"
proof -
  have "sum_list (map (\<lambda>b. if b then 0 else 1) r) \<le> sum_list (map (\<lambda>b. if b then 0 else (1::nat)) r')"
    using assms by (intro sum_list_mono_nth) auto
  moreover have "length (filter Not xs) = sum_list (map (\<lambda>b. if b then 0 else (1::nat)) xs)" for xs
    by (induction xs) auto
  ultimately show ?thesis by simp
qed

lemma zeroed_mono:
  assumes "rect3 n0 n1 n2 a" "rect3 n0 n1 n2 b"
    "\<forall>i<n0. \<forall>j<n1. \<forall>k<n2. \<not> a ! i ! j ! k \<longrightarrow> \<not> b ! i ! j ! k"
  shows "zeroed a \<le> zeroed b"
  unfolding zeroed_sum
proof (rule sum_list_mono_nth)
  show "length a = length b"
    using rect3_lengths(1) [OF assms(1)] rect3_lengths(1) [OF assms(2)] by simp
  show "\<forall>i<length a. sum_list (map (\<lambda>r. length (filter Not r)) (a ! i))
                     \<le> sum_list (map (\<lambda>r. length (filter Not r)) (b ! i))"
  proof (intro allI impI)
    fix i assume "i < length a"
    then have i: "i < n0" using rect3_lengths(1) [OF assms(1)] by simp
    show "sum_list (map (\<lambda>r. length (filter Not r)) (a ! i))
            \<le> sum_list (map (\<lambda>r. length (filter Not r)) (b ! i))"
    proof (rule sum_list_mono_nth)
      show "length (a ! i) = length (b ! i)"
        using rect3_lengths(2) [OF assms(1) i] rect3_lengths(2) [OF assms(2) i] by simp
      show "\<forall>j<length (a ! i). length (filter Not (a ! i ! j)) \<le> length (filter Not (b ! i ! j))"
      proof (intro allI impI)
        fix j assume "j < length (a ! i)"
        then have j: "j < n1" using rect3_lengths(2) [OF assms(1) i] by simp
        have la: "length (a ! i ! j) = n2" by (rule rect3_lengths(3) [OF assms(1) i j])
        have lb: "length (b ! i ! j) = n2" by (rule rect3_lengths(3) [OF assms(2) i j])
        show "length (filter Not (a ! i ! j)) \<le> length (filter Not (b ! i ! j))"
          using assms(3) i j la lb by (intro count_row_mono) auto
      qed
    qed
  qed
qed

lemma trunc_mono: "0 < r \<Longrightarrow> r \<le> r' \<Longrightarrow> trunc r \<le> trunc r'"
  by (simp add: trunc_def floor_mono)

lemma shear_mask_finite:
  assumes "fst p1 \<noteq> fst p0"
  shows "shear_mask shp (transpose_points (p0 # p1 # rest)) b =
     keep_mask shp (Fin (spec_slope (p0 # p1 # rest)))
       (Fin (of_int (snd p0) - of_int (fst p0) * spec_slope (p0 # p1 # rest) - of_int b))"
  using assms
  by (simp add: shear_mask_def shear_line_two true_divide_def spec_slope_def fsub_def)

lemma keep_mask_success_bound:
  assumes "s \<le> 0 \<or> 0 < c" "keep_mask (n0, n1, n2) (Fin s) (Fin c) = Inr km"
    "x < n2" "0 < of_nat x * s + c"
  shows "x < n1"
proof (rule ccontr)
  assume "\<not> x < n1"
  define ys where "ys = line_values n2 (Fin s) (Fin c)"
  define ps where "ps = zip (filter (\<lambda>x. fpos (ys ! x)) [0..<length ys]) (map astype_int ys)"
  have "(x, trunc (of_nat x * s + c)) \<in> set ps"
    unfolding ps_def using keep_mask_pairs [OF assms(1) ys_def] assms(3,4) by simp
  then have "\<exists>(x, y) \<in> set ps. n1 \<le> x"
    using \<open>\<not> x < n1\<close> by (intro bexI [of _ "(x, trunc (of_nat x * s + c))"]) auto
  from shear_loop_err [OF this]
  have "keep_mask (n0, n1, n2) (Fin s) (Fin c) = Inl IndexError"
    by (simp add: keep_mask_def Let_def ps_def ys_def)
  then show False using assms(2) by simp
qed

lemma keep_mask_monotone:
  assumes "s \<le> 0" "c2 \<le> c1" "keep_mask (n0, n1, n2) (Fin s) (Fin c1) = Inr km1"
  shows "\<exists>km2. keep_mask (n0, n1, n2) (Fin s) (Fin c2) = Inr km2 \<and> zeroed km2 \<le> zeroed km1"
proof -
  have a: "s \<le> 0 \<or> 0 < c" for c using assms(1) by simp
  have b1: "\<forall>x<n2. 0 < of_nat x * s + c1 \<longrightarrow> x < n1"
    using keep_mask_success_bound [OF a assms(3)] by blast
  have b2: "\<forall>x<n2. 0 < of_nat x * s + c2 \<longrightarrow> x < n1"
    using b1 assms(2) by (auto intro: less_le_trans)
  from keep_mask_aligned [OF a b1, where ?n0.0 = n0] obtain km where
    "keep_mask (n0, n1, n2) (Fin s) (Fin c1) = Inr km" "rect3 n0 n1 n2 km"
    "\<forall>i<n0. \<forall>x<n1. \<forall>k<n2. km ! i ! x ! k =
          (\<not> (x < n2 \<and> 0 < of_nat x * s + c1 \<and> int k < trunc (of_nat x * s + c1)))"
    by blast
  with assms(3) have r1: "rect3 n0 n1 n2 km1" and
    v1: "\<forall>i<n0. \<forall>x<n1. \<forall>k<n2. km1 ! i ! x ! k =
          (\<not> (x < n2 \<and> 0 < of_nat x * s + c1 \<and> int k < trunc (of_nat x * s + c1)))"
    by simp_all
  from keep_mask_aligned [OF a b2, where ?n0.0 = n0] obtain km2 where
    k2: "keep_mask (n0, n1, n2) (Fin s) (Fin c2) = Inr km2" and r2: "rect3 n0 n1 n2 km2" and
    v2: "\<forall>i<n0. \<forall>x<n1. \<forall>k<n2. km2 ! i ! x ! k =
          (\<not> (x < n2 \<and> 0 < of_nat x * s + c2 \<and> int k < trunc (of_nat x * s + c2)))"
    by blast
  have "\<not> km1 ! i ! x ! k" if "i < n0" "x < n1" "k < n2" "\<not> km2 ! i ! x ! k" for i x k
  proof -
    have h: "x < n2" "0 < of_nat x * s + c2" "int k < trunc (of_nat x * s + c2)"
      using v2 that by auto
    have "of_nat x * s + c2 \<le> of_nat x * s + c1" using assms(2) by simp
    then have "0 < of_nat x * s + c1" "trunc (of_nat x * s + c2) \<le> trunc (of_nat x * s + c1)"
      using h(2) trunc_mono by auto
    then show ?thesis using v1 that h by auto
  qed
  then have "zeroed km2 \<le> zeroed km1"
    by (intro zeroed_mono [OF r2 r1]) blast
  then show ?thesis using k2 by blast
qed

text \<open>
  C9, as amended. Hold the hull (that is, the anatomical and mask volumes) fixed, let its
  leading segment run forward without rising, so that the slope is finite and not
  positive, and let the keep-mask be built without error for the buffer \<open>b1\<close>. Then
  for every buffer \<open>b2 \<ge> b1\<close> the keep-mask is built without error too, and it zeroes
  no more voxels than the one for \<open>b1\<close>: increasing the buffer never increases the
  number of zeroed voxels.
\<close>

theorem buffer_monotone:
  assumes "2 \<le> length hpts" "fst (hpts ! 0) < fst (hpts ! 1)" "snd (hpts ! 1) \<le> snd (hpts ! 0)"
    "b1 \<le> b2" "shear_mask (n0, n1, n2) (transpose_points hpts) b1 = Inr km1"
  shows "\<exists>km2. shear_mask (n0, n1, n2) (transpose_points hpts) b2 = Inr km2 \<and>
           zeroed km2 \<le> zeroed km1"
proof -
  from assms(1) obtain p0 p1 rest where h: "hpts = p0 # p1 # rest"
    by (cases hpts; cases "tl hpts") auto
  have ne: "fst p1 \<noteq> fst p0" and lt: "fst p0 < fst p1" and le: "snd p1 \<le> snd p0"
    using assms(2,3) h by auto
  let ?s = "spec_slope hpts"
  have s: "?s \<le> 0"
    using lt le by (simp add: h spec_slope_def divide_le_0_iff)
  let ?c = "\<lambda>b. of_int (snd p0) - of_int (fst p0) * ?s - (of_int b :: rat)"
  have "?c b2 \<le> ?c b1" using assms(4) by simp
  moreover have "keep_mask (n0, n1, n2) (Fin ?s) (Fin (?c b1)) = Inr km1"
    using assms(5) unfolding h shear_mask_finite [OF ne] .
  ultimately have "\<exists>km2. keep_mask (n0, n1, n2) (Fin ?s) (Fin (?c b2)) = Inr km2 \<and>
      zeroed km2 \<le> zeroed km1"
    using s by (intro keep_mask_monotone)
  then show ?thesis unfolding h shear_mask_finite [OF ne] .
qed

text \<open>
  C9 as stated fails: for the hull \<open>(0, 1), (1, 0)\<close> on a volume of shape \<open>(1, 2, 2)\<close> the
  buffer 0 zeroes one voxel and the larger buffer 1 zeroes none. The buffer is
  subtracted from the intercept, which lowers the line.
\<close>

theorem buffer_monotone_counterexample:
  "shear_mask (1, 2, 2) (transpose_points [(0, 1), (1, 0)]) 0 = Inr [[[False, True], [True, True]]] \<and>
   shear_mask (1, 2, 2) (transpose_points [(0, 1), (1, 0)]) 1 = Inr [[[True, True], [True, True]]] \<and>
   zeroed [[[True, True], [True, True]]] < zeroed [[[False, True], [True, True]]]"
  by code_simp

theorem buffer_monotone_witness:
  "2 \<le> length [(0, 1), (1, 0) :: point] \<and>
   fst ([(0, 1), (1, 0) :: point] ! 0) < fst ([(0, 1), (1, 0) :: point] ! 1) \<and>
   snd ([(0, 1), (1, 0) :: point] ! 1) \<le> snd ([(0, 1), (1, 0) :: point] ! 0) \<and> (0 :: int) \<le> 1 \<and>
   shear_mask (1, 2, 2) (transpose_points [(0, 1), (1, 0)]) 0 = Inr [[[False, True], [True, True]]] \<and>
   (\<exists>km2. shear_mask (1, 2, 2) (transpose_points [(0, 1), (1, 0)]) 1 = Inr km2 \<and>
      zeroed km2 \<le> zeroed [[[False, True], [True, True]]])"
proof -
  have e: "shear_mask (1, 2, 2) (transpose_points [(0, 1), (1, 0)]) 0 = Inr [[[False, True], [True, True]]]"
    by code_simp
  have "\<exists>km2. shear_mask (1, 2, 2) (transpose_points [(0, 1), (1, 0)]) 1 = Inr km2 \<and>
      zeroed km2 \<le> zeroed [[[False, True], [True, True]]]"
    by (rule buffer_monotone [OF _ _ _ _ e]) simp_all
  then show ?thesis using e by simp
qed

section \<open>The defaced volume\<close>

lemma rect3I:
  assumes "length d = n0" "\<And>i. i < n0 \<Longrightarrow> length (d ! i) = n1"
    "\<And>i j. i < n0 \<Longrightarrow> j < n1 \<Longrightarrow> length (d ! i ! j) = n2"
  shows "rect3 n0 n1 n2 d"
  unfolding rect3_def rect2_def
proof (intro conjI ballI)
  show "length d = n0" by (rule assms(1))
next
  fix p assume "p \<in> set d"
  then obtain i where i: "i < n0" "p = d ! i" using assms(1) by (auto simp: in_set_conv_nth)
  then show "length p = n1" using assms(2) by simp
  fix r assume "r \<in> set p"
  then obtain j where "j < n1" "r = p ! j"
    using \<open>length p = n1\<close> by (auto simp: in_set_conv_nth)
  then show "length r = n2" using assms(3) i by simp
qed

lemma rect3_ext:
  assumes "rect3 n0 n1 n2 a" "rect3 n0 n1 n2 b"
    "\<And>i j k. i < n0 \<Longrightarrow> j < n1 \<Longrightarrow> k < n2 \<Longrightarrow> a ! i ! j ! k = b ! i ! j ! k"
  shows "a = b"
proof (rule nth_equalityI)
  show "length a = length b"
    using rect3_lengths(1) [OF assms(1)] rect3_lengths(1) [OF assms(2)] by simp
  fix i assume "i < length a"
  then have i: "i < n0" using rect3_lengths(1) [OF assms(1)] by simp
  show "a ! i = b ! i"
  proof (rule nth_equalityI)
    show "length (a ! i) = length (b ! i)"
      using rect3_lengths(2) [OF assms(1) i] rect3_lengths(2) [OF assms(2) i] by simp
    fix j assume "j < length (a ! i)"
    then have j: "j < n1" using rect3_lengths(2) [OF assms(1) i] by simp
    show "a ! i ! j = b ! i ! j"
    proof (rule nth_equalityI)
      show "length (a ! i ! j) = length (b ! i ! j)"
        using rect3_lengths(3) [OF assms(1) i j] rect3_lengths(3) [OF assms(2) i j] by simp
      fix k assume "k < length (a ! i ! j)"
      then have "k < n2" using rect3_lengths(3) [OF assms(1) i j] by simp
      then show "a ! i ! j ! k = b ! i ! j ! k" using assms(3) i j by simp
    qed
  qed
qed

lemma rect3_shape_eq:
  assumes "rect3 n0 n1 n2 a" "rect3 n0 n1 n2 b"
  shows "shape3 a = shape3 b"
proof -
  have l: "length a = n0" "length b = n0"
    using rect3_lengths(1) [OF assms(1)] rect3_lengths(1) [OF assms(2)] by simp_all
  show ?thesis
  proof (cases a)
    case Nil
    then show ?thesis using l by (simp add: shape3_def)
  next
    case (Cons p ps)
    then obtain q qs where b: "b = q # qs" using l by (cases b) auto
    have n0: "0 < n0" using l Cons by auto
    have pq: "length p = n1" "length q = n1"
      using rect3_lengths(2) [OF assms(1) n0] rect3_lengths(2) [OF assms(2) n0] Cons b by simp_all
    show ?thesis
    proof (cases p)
      case Nil
      then show ?thesis using pq Cons b l by (simp add: shape3_def)
    next
      case (Cons r rs)
      then obtain r' rs' where q: "q = r' # rs'" using pq by (cases q) auto
      have n1: "0 < n1" using pq Cons by auto
      have "length r = n2" "length r' = n2"
        using rect3_lengths(3) [OF assms(1) n0 n1] rect3_lengths(3) [OF assms(2) n0 n1]
          \<open>a = p # ps\<close> b Cons q by simp_all
      then show ?thesis using pq \<open>a = p # ps\<close> b Cons q l by (simp add: shape3_def)
    qed
  qed
qed

lemma mul3_rect:
  assumes "rect3 n0 n1 n2 m" "rect3 n0 n1 n2 a"
  shows "rect3 n0 n1 n2 (mul3 m a)"
proof (rule rect3I)
  note lm = rect3_lengths [OF assms(1)] and la = rect3_lengths [OF assms(2)]
  show "length (mul3 m a) = n0" using lm(1) la(1) by (simp add: mul3_def)
  show "length (mul3 m a ! i) = n1" if "i < n0" for i
    using that lm(1,2) la(1,2) by (simp add: mul3_def)
  show "length (mul3 m a ! i ! j) = n2" if "i < n0" "j < n1" for i j
    using that lm la by (simp add: mul3_def)
qed

lemma mul3_nth:
  assumes "rect3 n0 n1 n2 m" "rect3 n0 n1 n2 a" "i < n0" "j < n1" "k < n2"
  shows "mul3 m a ! i ! j ! k = (if m ! i ! j ! k then a ! i ! j ! k else 0)"
proof -
  note lm = rect3_lengths [OF assms(1)] and la = rect3_lengths [OF assms(2)]
  show ?thesis
    using assms(3,4,5) lm la by (simp add: mul3_def)
qed

text \<open>The index that a flip of an axis of length \<open>n\<close> reads.\<close>

lemma flip_axis_nth:
  assumes "rect3 n0 n1 n2 d" "axis < 3"
  shows "\<exists>d'. flip_axis d axis = Inr d' \<and> rect3 n0 n1 n2 d' \<and>
    (\<forall>i<n0. \<forall>j<n1. \<forall>k<n2.
       d' ! i ! j ! k = d ! (if axis = 0 then n0 - Suc i else i)
                         ! (if axis = 1 then n1 - Suc j else j)
                         ! (if axis = 2 then n2 - Suc k else k))"
proof -
  note l = rect3_lengths [OF assms(1)]
  consider "axis = 0" | "axis = 1" | "axis = 2" using assms(2) by linarith
  then show ?thesis
  proof cases
    case 1
    have r: "rect3 n0 n1 n2 (rev d)"
      using assms(1) by (simp add: rect3_def)
    have "rev d ! i ! j ! k = d ! (n0 - Suc i) ! j ! k" if "i < n0" for i j k
      using that l(1) by (simp add: rev_nth)
    then show ?thesis using 1 r by (simp add: flip_axis_def)
  next
    case 2
    have r: "rect3 n0 n1 n2 (map rev d)"
      using assms(1) by (auto simp: rect3_def rect2_def)
    have "map rev d ! i ! j ! k = d ! i ! (n1 - Suc j) ! k" if "i < n0" "j < n1" for i j k
      using that l(1) l(2) [OF that(1)] by (simp add: rev_nth)
    then show ?thesis using 2 r by (simp add: flip_axis_def)
  next
    case 3
    have r: "rect3 n0 n1 n2 (map (map rev) d)"
      using assms(1) by (auto simp: rect3_def rect2_def)
    have "map (map rev) d ! i ! j ! k = d ! i ! j ! (n2 - Suc k)"
      if "i < n0" "j < n1" "k < n2" for i j k
      using that l(1) l(2) [OF that(1)] l(3) [OF that(1,2)] by (simp add: rev_nth)
    then show ?thesis using 3 r by (simp add: flip_axis_def)
  qed
qed



lemma nonzero1_bound: "\<forall>axis \<in> set (nonzero1 flips). axis < length flips"
  by (simp add: nonzero1_def)


lemma flip_loop_rect:
  assumes "rect3 n0 n1 n2 a" "\<forall>axis \<in> set axes. axis < 3"
  shows "\<exists>a'. flip_loop a axes = Inr a' \<and> rect3 n0 n1 n2 a'"
  using assms
proof (induction axes arbitrary: a)
  case Nil
  then show ?case by simp
next
  case (Cons axis axes)
  have "axis < 3" using Cons.prems(2) by simp
  from flip_axis_nth [OF Cons.prems(1) this] obtain a1 where
    s: "flip_axis a axis = Inr a1" "rect3 n0 n1 n2 a1"
    by blast
  have "\<forall>axis \<in> set axes. axis < 3" using Cons.prems(2) by simp
  from Cons.IH [OF s(2) this] show ?case
    using s(1) by simp
qed

lemma flip_axes_rect:
  assumes "rect3 n0 n1 n2 a" "length flips = 3"
  shows "\<exists>a'. flip_axes a flips = Inr a' \<and> rect3 n0 n1 n2 a'"
  unfolding flip_axes_def
  using nonzero1_bound [of flips] assms(2)
  by (intro flip_loop_rect [OF assms(1)]) simp

lemma flip_axes_twice:
  assumes "length flips = 3" "flip_axes d flips = Inr d'"
  shows "flip_axes d' flips = Inr d"
proof -
  from assms(1) obtain a b c where f: "flips = [a, b, c]"
    by (cases flips; cases "tl flips"; cases "tl (tl flips)") auto
  show ?thesis
    using assms(2) unfolding f flip_axes_def nonzero1_three
    by (cases a; cases b; cases c) (auto simp: flip_axis_def rev_map o_def)
qed






lemma is_array3_rect:
  assumes "is_array3 d" "shape3 d = (n0, n1, n2)"
  shows "rect3 n0 n1 n2 d"
  using assms by (simp add: is_array3_def)





section \<open>The convex hull\<close>

lemma turn_core:
  fixes x1 y1 x2 y2 x3 y3 :: int
  assumes "0 < x2" "0 \<le> x1" "0 \<le> x3" "0 \<le> x1 * y2 - y1 * x2" "0 \<le> x2 * y3 - y2 * x3"
  shows "0 \<le> x1 * y3 - y1 * x3"
proof -
  have "(x1 * y3 - y1 * x3) * x2 = (x1 * y2 - y1 * x2) * x3 + (x2 * y3 - y2 * x3) * x1"
    by algebra
  also have "0 \<le> \<dots>" using assms by simp
  finally show ?thesis using assms(1) by (simp add: zero_le_mult_iff)
qed

lemma lex_less_trans: "lex_less a b \<Longrightarrow> lex_less b c \<Longrightarrow> lex_less a c"
  by (auto simp: lex_less_def)

lemma lex_less_irrefl: "\<not> lex_less a a"
  by (simp add: lex_less_def)

lemma lex_less_total: "lex_less a b \<or> a = b \<or> lex_less b a"
  by (cases a; cases b) (auto simp: lex_less_def)

lemma cross_same [simp]: "cross a b a = 0" "cross a a b = 0" "cross a b b = 0"
  by (simp_all add: cross_def)

text \<open>The cross product of the sum of two steps.\<close>

lemma cross_split: "cross d p q = cross d e q - cross d e p + cross e p q"
  by (simp add: cross_def algebra_simps)

text \<open>A point between \<open>d\<close> and \<open>e\<close>, left of the edge from \<open>d\<close> to \<open>e\<close>, is left of the edge
  from \<open>d\<close> to a later point \<open>p\<close> that is right of the edge from \<open>d\<close> to \<open>e\<close>.\<close>

lemma turn_between:
  assumes "d = q \<or> lex_less d q" "lex_less q e" "lex_less d p"
    "0 \<le> cross d e q" "cross d e p \<le> 0"
  shows "0 \<le> cross d p q"
proof -
  obtain dx dy where d: "d = (dx, dy)" by (cases d)
  obtain ex ey where e: "e = (ex, ey)" by (cases e)
  obtain px py where p: "p = (px, py)" by (cases p)
  obtain qx qy where q: "q = (qx, qy)" by (cases q)
  show ?thesis
  proof (cases "0 < ex - dx")
    case True
    have "0 \<le> (px - dx) * (qy - dy) - (py - dy) * (qx - dx)"
    proof (rule turn_core [OF True])
      show "0 \<le> px - dx" using assms(3) by (auto simp: d p lex_less_def)
      show "0 \<le> qx - dx" using assms(1) by (auto simp: d q lex_less_def)
      show "0 \<le> (px - dx) * (ey - dy) - (py - dy) * (ex - dx)"
        using assms(5) by (simp add: cross_def d e p algebra_simps)
      show "0 \<le> (ex - dx) * (qy - dy) - (ey - dy) * (qx - dx)"
        using assms(4) by (simp add: cross_def d e q)
    qed
    then show ?thesis by (simp add: cross_def d p q)
  next
    case False
    then have x: "qx = dx" "0 \<le> qy - dy" "0 \<le> px - dx"
      using assms(1,2,3) by (auto simp: d e p q lex_less_def)
    then have "0 \<le> (px - dx) * (qy - dy)" by simp
    then show ?thesis using x by (simp add: cross_def d p q)
  qed
qed

text \<open>A point before \<open>c\<close>, left of the edge from \<open>b\<close> to \<open>c\<close>, is left of the edge from
  \<open>c\<close> to a later point \<open>p\<close> that is strictly left of the edge from \<open>b\<close> to \<open>c\<close>.\<close>

lemma turn_before:
  assumes "lex_less q c" "lex_less b c" "lex_less c p" "0 \<le> cross b c q" "0 < cross b c p"
  shows "0 \<le> cross c p q"
proof -
  obtain bx "by" where b: "b = (bx, by)" by (cases b)
  obtain cx cy where c: "c = (cx, cy)" by (cases c)
  obtain px py where p: "p = (px, py)" by (cases p)
  obtain qx qy where q: "q = (qx, qy)" by (cases q)
  have w: "0 \<le> px - cx" using assms(3) by (auto simp: c p lex_less_def)
  have ux: "0 < cx - bx"
  proof (rule ccontr)
    assume "\<not> 0 < cx - bx"
    then have "cx = bx" "0 < cy - by" using assms(2) by (auto simp: b c lex_less_def)
    then have "0 < - ((cy - by) * (px - cx))" using assms(5) by (simp add: cross_def b c p)
    moreover have "0 \<le> (cy - by) * (px - cx)" using w \<open>0 < cy - by\<close> by simp
    ultimately show False by simp
  qed
  have "0 \<le> (cx - qx) * (py - cy) - (cy - qy) * (px - cx)"
  proof (rule turn_core [OF ux])
    show "0 \<le> cx - qx" using assms(1) by (auto simp: c q lex_less_def)
    show "0 \<le> px - cx" by (rule w)
    show "0 \<le> (cx - qx) * (cy - by) - (cy - qy) * (cx - bx)"
      using assms(4) by (simp add: cross_def b c q algebra_simps)
    show "0 \<le> (cx - bx) * (py - cy) - (cy - by) * (px - cx)"
      using assms(5) by (simp add: cross_def b c p algebra_simps)
  qed
  then show ?thesis by (simp add: cross_def c p q algebra_simps)
qed

text \<open>A point strictly left of the last edge of a chain that turns left is strictly left
  of the edge before.\<close>

lemma turn_chain:
  assumes "lex_less a b" "lex_less b c" "lex_less c p" "0 < cross a b c" "0 < cross b c p"
  shows "0 < cross a b p"
proof -
  obtain ax ay where a: "a = (ax, ay)" by (cases a)
  obtain bx "by" where b: "b = (bx, by)" by (cases b)
  obtain cx cy where c: "c = (cx, cy)" by (cases c)
  obtain px py where p: "p = (px, py)" by (cases p)
  have w: "0 \<le> px - cx" using assms(3) by (auto simp: c p lex_less_def)
  have vx: "0 < cx - bx"
  proof (rule ccontr)
    assume "\<not> 0 < cx - bx"
    then have "cx = bx" "0 < cy - by" using assms(2) by (auto simp: b c lex_less_def)
    then have "0 < - ((cy - by) * (px - cx))" using assms(5) by (simp add: cross_def b c p)
    moreover have "0 \<le> (cy - by) * (px - cx)" using w \<open>0 < cy - by\<close> by simp
    ultimately show False by simp
  qed
  have uw: "0 \<le> (bx - ax) * (py - cy) - (by - ay) * (px - cx)"
  proof (rule turn_core [OF vx])
    show "0 \<le> bx - ax" using assms(1) by (auto simp: a b lex_less_def)
    show "0 \<le> px - cx" by (rule w)
    show "0 \<le> (bx - ax) * (cy - by) - (by - ay) * (cx - bx)"
      using assms(4) by (simp add: cross_def a b c algebra_simps)
    show "0 \<le> (cx - bx) * (py - cy) - (cy - by) * (px - cx)"
      using assms(5) by (simp add: cross_def b c p algebra_simps)
  qed
  have "cross a b p = cross a b c + ((bx - ax) * (py - cy) - (by - ay) * (px - cx))"
    by (simp add: cross_def a b c p algebra_simps)
  then show ?thesis using assms(4) uw by linarith
qed

subsection \<open>The inner loop\<close>

lemma pop_loop_take: "\<exists>k \<le> length lower. pop_loop lower p = take k lower"
proof (induction lower p rule: pop_loop.induct)
  case (1 lower p)
  show ?case
  proof (cases "2 \<le> length lower \<and>
         cross (lower ! (length lower - 2)) (lower ! (length lower - 1)) p \<le> 0")
    case True
    from "1.IH" [OF True] obtain k where
      k: "k \<le> length (butlast lower)" "pop_loop (butlast lower) p = take k (butlast lower)"
      by blast
    have "take k (butlast lower) = take k lower"
      using k(1) by (simp add: butlast_conv_take)
    then have "pop_loop lower p = take k lower"
      using True k(2) by (subst pop_loop.simps) simp
    moreover have "k \<le> length lower" using k(1) by simp
    ultimately show ?thesis by blast
  next
    case False
    then have "pop_loop lower p = take (length lower) lower"
      by (subst pop_loop.simps) auto
    then show ?thesis by blast
  qed
qed

lemma pop_loop_nonempty: "lower \<noteq> [] \<Longrightarrow> pop_loop lower p \<noteq> []"
proof (induction lower p rule: pop_loop.induct)
  case (1 lower p)
  show ?case
  proof (cases "2 \<le> length lower \<and>
         cross (lower ! (length lower - 2)) (lower ! (length lower - 1)) p \<le> 0")
    case True
    then have "butlast lower \<noteq> []" by (cases lower rule: rev_cases) auto
    from "1.IH" [OF True this] show ?thesis
      using True by (subst pop_loop.simps) simp
  next
    case False
    then show ?thesis using "1.prems" by (subst pop_loop.simps) auto
  qed
qed

lemma pop_loop_exit:
  assumes "2 \<le> length (pop_loop lower p)"
  shows "0 < cross (pop_loop lower p ! (length (pop_loop lower p) - 2))
                   (pop_loop lower p ! (length (pop_loop lower p) - 1)) p"
  using assms
proof (induction lower p rule: pop_loop.induct)
  case (1 lower p)
  show ?case
  proof (cases "2 \<le> length lower \<and>
         cross (lower ! (length lower - 2)) (lower ! (length lower - 1)) p \<le> 0")
    case True
    then have e: "pop_loop lower p = pop_loop (butlast lower) p"
      by (subst pop_loop.simps) simp
    show ?thesis using 1(1) [OF True] 1(2) unfolding e by simp
  next
    case False
    then have e: "pop_loop lower p = lower"
      by (subst pop_loop.simps) auto
    show ?thesis using False 1(2) unfolding e by auto
  qed
qed

text \<open>The invariant of the inner loop: every point that is not before the last point of
  the stack is left of the edge from that last point to \<open>p\<close>.\<close>

lemma pop_loop_support:
  assumes "sorted_wrt lex_less lower" "supports lower Q" "\<forall>x \<in> set lower. lex_less x p"
    "lower \<noteq> []"
    "\<forall>q \<in> Q. last lower = q \<or> lex_less (last lower) q \<longrightarrow> 0 \<le> cross (last lower) p q"
  shows "\<forall>q \<in> Q. last (pop_loop lower p) = q \<or> lex_less (last (pop_loop lower p)) q
           \<longrightarrow> 0 \<le> cross (last (pop_loop lower p)) p q"
  using assms
proof (induction lower p rule: pop_loop.induct)
  case (1 lower p)
  show ?case
  proof (cases "2 \<le> length lower \<and>
         cross (lower ! (length lower - 2)) (lower ! (length lower - 1)) p \<le> 0")
    case False
    then have e: "pop_loop lower p = lower"
      by (subst pop_loop.simps) auto
    show ?thesis unfolding e by (rule 1(6))
  next
    case True
    then have e: "pop_loop lower p = pop_loop (butlast lower) p"
      by (subst pop_loop.simps) simp
    from True obtain us d e' where l: "lower = us @ [d, e']"
      by (cases lower rule: rev_cases; cases "butlast lower" rule: rev_cases) auto
    have bl: "butlast lower = us @ [d]" by (simp add: l butlast_append)
    have idx: "lower ! (length lower - 2) = d" "lower ! (length lower - 1) = e'"
      by (simp_all add: l nth_append)
    have pop: "cross d e' p \<le> 0" using True idx by simp
    have de: "lex_less d e'" using 1(2) by (simp add: l sorted_wrt_append)
    have dp: "lex_less d p" using 1(4) by (simp add: l)
    have edge: "\<forall>q \<in> Q. 0 \<le> cross d e' q"
    proof
      fix q assume "q \<in> Q"
      have "length us + 1 < length lower" by (simp add: l)
      then have "0 \<le> cross (lower ! length us) (lower ! (length us + 1)) q"
        using 1(3) \<open>q \<in> Q\<close> unfolding supports_def by blast
      then show "0 \<le> cross d e' q" by (simp add: l nth_append)
    qed
    have s: "sorted_wrt lex_less (butlast lower)"
      using 1(2) unfolding bl by (simp add: l sorted_wrt_append)
    have sup: "supports (butlast lower) Q"
      unfolding supports_def
    proof (intro allI impI ballI)
      fix i q assume i: "i + 1 < length (butlast lower)" and q: "q \<in> Q"
      then have "i + 1 < length lower" by simp
      then have "0 \<le> cross (lower ! i) (lower ! (i + 1)) q"
        using 1(3) q unfolding supports_def by blast
      then show "0 \<le> cross (butlast lower ! i) (butlast lower ! (i + 1)) q"
        using i by (simp add: nth_butlast)
    qed
    have b: "\<forall>x \<in> set (butlast lower). lex_less x p"
      using 1(4) by (auto dest: in_set_butlastD)
    have ne: "butlast lower \<noteq> []" by (simp add: bl)
    have j: "\<forall>q \<in> Q. last (butlast lower) = q \<or> lex_less (last (butlast lower)) q
               \<longrightarrow> 0 \<le> cross (last (butlast lower)) p q"
    proof (intro ballI impI)
      fix q assume q: "q \<in> Q" and "last (butlast lower) = q \<or> lex_less (last (butlast lower)) q"
      then have dq: "d = q \<or> lex_less d q" by (simp add: bl)
      show "0 \<le> cross (last (butlast lower)) p q"
      proof (cases "lex_less q e'")
        case True
        from turn_between [OF dq True dp] edge q pop show ?thesis by (simp add: bl)
      next
        case False
        then have "e' = q \<or> lex_less e' q" using lex_less_total [of q e'] by auto
        then have "0 \<le> cross e' p q" using 1(6) q by (auto simp: l)
        moreover have "0 \<le> cross d e' q" using edge q by blast
        ultimately have "0 \<le> cross d p q"
          using pop cross_split [of d p q e'] by linarith
        then show ?thesis by (simp add: bl)
      qed
    qed
    show ?thesis
      unfolding e by (rule 1(1) [OF True s sup b ne j])
  qed
qed

text \<open>The point \<open>p\<close> is strictly left of every edge of a sorted chain that turns left, if
  it is strictly left of the last one.\<close>

lemma chain_left:
  assumes "sorted_wrt lex_less t" "turns_left t" "\<forall>x \<in> set t. lex_less x p"
    "0 < cross (t ! (length t - 2)) (t ! (length t - 1)) p"
  shows "i + 2 + k = length t \<Longrightarrow> 0 < cross (t ! i) (t ! (i + 1)) p"
proof (induction k arbitrary: i)
  case 0
  then have "length t - 2 = i" "length t - 1 = i + 1" by simp_all
  then show ?case using assms(4) by simp
next
  case (Suc k)
  then have "(i + 1) + 2 + k = length t" by simp
  from Suc.IH [OF this] have a: "0 < cross (t ! (i + 1)) (t ! (i + 2)) p"
    by (simp add: add.commute add.left_commute)
  have i: "i + 2 < length t" using Suc.prems by simp
  have t: "0 < cross (t ! i) (t ! (i + 1)) (t ! (i + 2))"
    using assms(2) i unfolding turns_left_def by blast
  have o: "lex_less (t ! i) (t ! (i + 1))" "lex_less (t ! (i + 1)) (t ! (i + 2))"
    using assms(1) i by (simp_all add: sorted_wrt_iff_nth_less)
  have "lex_less (t ! (i + 2)) p" using assms(3) i by simp
  from turn_chain [OF o this t a] show ?case .
qed

subsection \<open>The sweep\<close>

lemma sorted_hd_least:
  assumes "sorted_wrt lex_less P" "q \<in> set P"
  shows "hd P = q \<or> lex_less (hd P) q"
  using assms by (cases P) auto

lemma sorted_last_greatest:
  assumes "sorted_wrt lex_less P" "q \<in> set P"
  shows "last P = q \<or> lex_less q (last P)"
  using assms by (cases P rule: rev_cases) (auto simp: sorted_wrt_append)

lemma subseq_set: "subseq xs ys \<Longrightarrow> set xs \<subseteq> set ys"
  by (auto dest: list_emb_set)

lemma hull_step:
  assumes sP: "sorted_wrt lex_less (P @ [p])"
    and e: "P = [] \<longrightarrow> S = []"
    and n: "P \<noteq> [] \<longrightarrow> S \<noteq> [] \<and> hd S = hd P \<and> last S = last P"
    and sS: "sorted_wrt lex_less S" and sub: "subseq S P"
    and tl: "turns_left S" and sup: "supports S (set P)"
  shows "pop_loop S p @ [p] \<noteq> [] \<and> hd (pop_loop S p @ [p]) = hd (P @ [p]) \<and>
         last (pop_loop S p @ [p]) = last (P @ [p]) \<and>
         sorted_wrt lex_less (pop_loop S p @ [p]) \<and> subseq (pop_loop S p @ [p]) (P @ [p]) \<and>
         turns_left (pop_loop S p @ [p]) \<and> supports (pop_loop S p @ [p]) (set (P @ [p]))"
proof -
  define T where "T = pop_loop S p"
  obtain k where k: "k \<le> length S" "T = take k S"
    using pop_loop_take [of S p] unfolding T_def by blast
  have lenT: "length T = k" using k by simp
  have nthT: "T ! i = S ! i" if "i < length T" for i using that k by simp
  have sorP: "sorted_wrt lex_less P" and Pp: "\<forall>q \<in> set P. lex_less q p"
    using sP by (simp_all add: sorted_wrt_append)
  have SP: "set S \<subseteq> set P" by (rule subseq_set [OF sub])
  have Sp: "\<forall>x \<in> set S. lex_less x p" using SP Pp by blast
  have TS: "set T \<subseteq> set S" using k by (simp add: set_take_subset)
  have Tp: "\<forall>x \<in> set T. lex_less x p" using TS Sp by blast
  have sT: "sorted_wrt lex_less T" using sS k by (simp add: sorted_wrt_take)
  have subT: "subseq T P"
  proof -
    have "subseq T S" unfolding k(2) by (rule prefix_imp_subseq [OF take_is_prefix])
    then show ?thesis using sub by (rule subseq_order.order_trans)
  qed
  have tlT: "turns_left T"
    unfolding turns_left_def
  proof (intro allI impI)
    fix i assume i: "i + 2 < length T"
    then have "i + 2 < length S" using k by simp
    then have "0 < cross (S ! i) (S ! (i + 1)) (S ! (i + 2))"
      using tl unfolding turns_left_def by blast
    then show "0 < cross (T ! i) (T ! (i + 1)) (T ! (i + 2))"
      using i by (simp add: nthT)
  qed
  have supT: "supports T (set P)"
    unfolding supports_def
  proof (intro allI impI ballI)
    fix i q assume i: "i + 1 < length T" and q: "q \<in> set P"
    then have "i + 1 < length S" using k by simp
    then have "0 \<le> cross (S ! i) (S ! (i + 1)) q"
      using sup q unfolding supports_def by blast
    then show "0 \<le> cross (T ! i) (T ! (i + 1)) q"
      using i by (simp add: nthT)
  qed
  have srt: "sorted_wrt lex_less (T @ [p])"
    using sT Tp by (simp add: sorted_wrt_append)
  have sq: "subseq (T @ [p]) (P @ [p])"
    using subT by (simp add: subseq_append')
  show ?thesis
  proof (cases "P = []")
    case True
    then have "S = []" using e by simp
    then have "T = []" using k by simp
    then show ?thesis
      unfolding T_def [symmetric] using True
      by (simp add: turns_left_def supports_def)
  next
    case False
    then have S: "S \<noteq> []" "hd S = hd P" "last S = last P" using n by simp_all
    have Tne: "T \<noteq> []" unfolding T_def by (rule pop_loop_nonempty [OF S(1)])
    then have k0: "0 < k" using lenT by (cases T) auto
    have hdT: "hd T = hd P" using S k k0 by simp
    have lastT: "last T = T ! (length T - 1)" using Tne by (simp add: last_conv_nth)
    have exit: "0 < cross (T ! (length T - 2)) (T ! (length T - 1)) p" if "2 \<le> length T"
      using pop_loop_exit [of S p] that unfolding T_def by simp
    have JS: "\<forall>q \<in> set P. last S = q \<or> lex_less (last S) q \<longrightarrow> 0 \<le> cross (last S) p q"
    proof (intro ballI impI)
      fix q assume q: "q \<in> set P" and a: "last S = q \<or> lex_less (last S) q"
      have "last P = q \<or> lex_less q (last P)" by (rule sorted_last_greatest [OF sorP q])
      then have "last S = q"
        using a S(3) lex_less_trans [of q "last P" q] lex_less_irrefl [of q] by auto
      then show "0 \<le> cross (last S) p q" by simp
    qed
    have JT: "\<forall>q \<in> set P. last T = q \<or> lex_less (last T) q \<longrightarrow> 0 \<le> cross (last T) p q"
      unfolding T_def by (rule pop_loop_support [OF sS sup Sp S(1) JS])
    have newedge: "0 \<le> cross (last T) p q" if q: "q \<in> set P" for q
    proof (cases "last T = q \<or> lex_less (last T) q")
      case True
      then show ?thesis using JT q by blast
    next
      case False
      then have ql: "lex_less q (last T)" using lex_less_total [of q "last T"] by auto
      show ?thesis
      proof (cases "2 \<le> length T")
        case True
        let ?b = "T ! (length T - 2)" and ?c = "T ! (length T - 1)"
        have bc: "lex_less ?b ?c"
          using sT True by (simp add: sorted_wrt_iff_nth_less)
        have cp: "lex_less ?c p" using Tp True by simp
        have "length T - 2 + 1 < length T" "length T - 2 + 1 = length T - 1"
          using True by simp_all
        then have bq: "0 \<le> cross ?b ?c q"
          using supT q unfolding supports_def by metis
        from turn_before [OF _ bc cp bq exit [OF True]] ql
        show ?thesis by (simp add: lastT)
      next
        case False
        then have "length T = 1" using Tne by (cases T) (auto simp: not_le)
        then have "last T = hd T" by (cases T) auto
        then have "last T = hd P" using hdT by simp
        then have "last T = q \<or> lex_less (last T) q"
          using sorted_hd_least [OF sorP q] by simp
        then show ?thesis using ql lex_less_trans [of q "last T" q] lex_less_irrefl [of q]
          by auto
      qed
    qed
    have left: "0 < cross (T ! i) (T ! (i + 1)) p" if i: "i + 1 < length T" for i
    proof -
      have "2 \<le> length T" using i by simp
      from chain_left [OF sT tlT Tp exit [OF this], of i "length T - 2 - i"] i
      show ?thesis by simp
    qed
    have t': "turns_left (T @ [p])"
      unfolding turns_left_def
    proof (intro allI impI)
      fix i assume i: "i + 2 < length (T @ [p])"
      show "0 < cross ((T @ [p]) ! i) ((T @ [p]) ! (i + 1)) ((T @ [p]) ! (i + 2))"
      proof (cases "i + 2 < length T")
        case True
        then show ?thesis using tlT unfolding turns_left_def by (simp add: nth_append)
      next
        case False
        then have "i + 2 = length T" using i by simp
        then have "i + 1 < length T" "(T @ [p]) ! (i + 2) = p" by (simp_all add: nth_append)
        then show ?thesis using left [of i] by (simp add: nth_append)
      qed
    qed
    have s': "supports (T @ [p]) (set (P @ [p]))"
      unfolding supports_def
    proof (intro allI impI ballI)
      fix i q assume i: "i + 1 < length (T @ [p])" and q: "q \<in> set (P @ [p])"
      show "0 \<le> cross ((T @ [p]) ! i) ((T @ [p]) ! (i + 1)) q"
      proof (cases "i + 1 < length T")
        case True
        have "0 \<le> cross (T ! i) (T ! (i + 1)) q"
        proof (cases "q = p")
          case True
          then show ?thesis using left [OF \<open>i + 1 < length T\<close>] by simp
        next
          case False
          then have "q \<in> set P" using q by simp
          then show ?thesis using supT True unfolding supports_def by blast
        qed
        then show ?thesis using True by (simp add: nth_append)
      next
        case False
        then have il: "i + 1 = length T" using i by simp
        then have "length T - 1 = i" by simp
        then have a: "(T @ [p]) ! i = last T" "(T @ [p]) ! (i + 1) = p"
          using lastT il by (simp_all add: nth_append)
        have "0 \<le> cross (last T) p q"
        proof (cases "q = p")
          case True
          then show ?thesis by simp
        next
          case False
          then have "q \<in> set P" using q by simp
          then show ?thesis by (rule newedge)
        qed
        then show ?thesis unfolding a .
      qed
    qed
    have "hd (T @ [p]) = hd (P @ [p])" using Tne False hdT by simp
    then show ?thesis
      unfolding T_def [symmetric] using srt sq t' s' by simp
  qed
qed

lemma hull_loop_snoc: "hull_loop (P @ [p]) = pop_loop (hull_loop P) p @ [p]"
  by (simp add: hull_loop_def)

lemma hull_loop_inv:
  assumes "sorted_wrt lex_less P"
  shows "(P = [] \<longrightarrow> hull_loop P = []) \<and>
         (P \<noteq> [] \<longrightarrow> hull_loop P \<noteq> [] \<and> hd (hull_loop P) = hd P \<and> last (hull_loop P) = last P) \<and>
         sorted_wrt lex_less (hull_loop P) \<and> subseq (hull_loop P) P \<and>
         turns_left (hull_loop P) \<and> supports (hull_loop P) (set P)"
  using assms
proof (induction P rule: rev_induct)
  case Nil
  show ?case by (simp add: hull_loop_def turns_left_def supports_def)
next
  case (snoc p P)
  have "sorted_wrt lex_less P" using snoc.prems by (simp add: sorted_wrt_append)
  from snoc.IH [OF this] have
    i: "P = [] \<longrightarrow> hull_loop P = []"
       "P \<noteq> [] \<longrightarrow> hull_loop P \<noteq> [] \<and> hd (hull_loop P) = hd P \<and> last (hull_loop P) = last P"
       "sorted_wrt lex_less (hull_loop P)" "subseq (hull_loop P) P"
       "turns_left (hull_loop P)" "supports (hull_loop P) (set P)"
    by blast+
  from hull_step [OF snoc.prems i] show ?case
    unfolding hull_loop_snoc by simp
qed

subsection \<open>The points of an array\<close>

lemma nonzero2_row_sorted:
  "sorted_wrt lex_less (map (\<lambda>j. (int i, int j)) (filter P [0..<m]))"
proof -
  have "sorted_wrt (<) (filter P [0..<m])"
    by (rule sorted_wrt_filter) simp
  then show ?thesis
    by (simp add: sorted_wrt_map lex_less_def)
qed

lemma nonzero2_upto_sorted:
  "sorted_wrt lex_less
     (concat (map (\<lambda>i. map (\<lambda>j. (int i, int j)) (filter (P i) [0..<m i])) [0..<n])) \<and>
   (\<forall>x \<in> set (concat (map (\<lambda>i. map (\<lambda>j. (int i, int j)) (filter (P i) [0..<m i])) [0..<n])).
      0 \<le> fst x \<and> fst x < int n)"
proof (induction n)
  case 0
  show ?case by simp
next
  case (Suc n)
  let ?row = "\<lambda>i. map (\<lambda>j. (int i, int j)) (filter (P i) [0..<m i])"
  have r: "sorted_wrt lex_less (?row n)" by (rule nonzero2_row_sorted)
  have f: "\<forall>y \<in> set (?row n). fst y = int n" by auto
  have "\<forall>x \<in> set (concat (map ?row [0..<n])). \<forall>y \<in> set (?row n). lex_less x y"
    using Suc f by (auto simp: lex_less_def)
  then have "sorted_wrt lex_less (concat (map ?row [0..<n]) @ ?row n)"
    using Suc r by (simp add: sorted_wrt_append)
  moreover have "\<forall>x \<in> set (concat (map ?row [0..<n]) @ ?row n). 0 \<le> fst x \<and> fst x < int (Suc n)"
    using Suc f by auto
  ultimately show ?case by simp
qed

lemma nonzero2_sorted: "sorted_wrt lex_less (nonzero2 brain)"
  unfolding nonzero2_def
  using nonzero2_upto_sorted [of "\<lambda>i j. brain ! i ! j \<noteq> 0" "\<lambda>i. length (brain ! i)" "length brain"]
  by blast

lemma nonzero2_nonneg: "x \<in> set (nonzero2 brain) \<Longrightarrow> 0 \<le> fst x"
  unfolding nonzero2_def
  using nonzero2_upto_sorted [of "\<lambda>i j. brain ! i ! j \<noteq> 0" "\<lambda>i. length (brain ! i)" "length brain"]
  by blast

lemma hull_points_nonneg: "x \<in> set (hull_points brain) \<Longrightarrow> 0 \<le> fst x"
proof -
  assume x: "x \<in> set (hull_points brain)"
  have "subseq (hull_points brain) (nonzero2 brain)"
    unfolding hull_points_def using hull_loop_inv [OF nonzero2_sorted] by blast
  then have "x \<in> set (nonzero2 brain)" using x subseq_set by blast
  then show ?thesis by (rule nonzero2_nonneg)
qed

text \<open>
  C3. For every two-dimensional array, \<open>convex_hull\<close> itself puts the points in ascending
  lexicographic order by (first coordinate, second coordinate): they are read off the
  array in row-major order (line 49), whatever the array holds, and nothing is assumed
  of the input. The sweep over them then pops while \<open>cross \<le> 0\<close>. Its result is the
  lower hull from left to right: a subsequence of the points in that order, from the
  first point to the last, in which every three consecutive points turn strictly left
  (a vertex that is collinear with its neighbours is not kept), and such that no point of
  the array lies strictly to the right of one of its edges.
\<close>

theorem convex_hull_lower_hull:
  "sorted_wrt lex_less (nonzero2 brain) \<and>
   hull_points brain = hull_loop (nonzero2 brain) \<and>
   convex_hull brain = transpose_points (hull_points brain) \<and>
   subseq (hull_points brain) (nonzero2 brain) \<and>
   sorted_wrt lex_less (hull_points brain) \<and>
   turns_left (hull_points brain) \<and>
   supports (hull_points brain) (set (nonzero2 brain)) \<and>
   (nonzero2 brain \<noteq> [] \<longrightarrow>
      hd (hull_points brain) = hd (nonzero2 brain) \<and>
      last (hull_points brain) = last (nonzero2 brain))"
  using hull_loop_inv [OF nonzero2_sorted, of brain] nonzero2_sorted [of brain]
  by (simp add: hull_points_def convex_hull_def)

theorem convex_hull_lower_hull_witness:
  "nonzero2 [[0, 1, 0], [1, 0, 0], [0, 1, 1]] = [(0, 1), (1, 0), (2, 1), (2, 2)] \<and>
   hull_points [[0, 1, 0], [1, 0, 0], [0, 1, 1]] = [(0, 1), (1, 0), (2, 1), (2, 2)] \<and>
   hd (hull_points [[0, 1, 0], [1, 0, 0], [0, 1, 1]]) = (0, 1) \<and>
   last (hull_points [[0, 1, 0], [1, 0, 0], [0, 1, 1]]) = (2, 2) \<and>
   turns_left [(0, 1), (1, 0), (2, 1), (2, 2)] \<and>
   supports [(0, 1), (1, 0), (2, 1), (2, 2)] {(0, 1), (1, 0), (2, 1), (2, 2)}"
proof -
  let ?b = "[[0, 1, 0], [1, 0, 0], [0, 1, 1 :: nat]]"
  have n: "nonzero2 ?b = [(0, 1), (1, 0), (2, 1), (2, 2)]" by code_simp
  have h: "hull_points ?b = [(0, 1), (1, 0), (2, 1), (2, 2)]" by code_simp
  from convex_hull_lower_hull [of ?b] show ?thesis
    unfolding n h by simp
qed

subsection \<open>Degenerate hulls\<close>

lemma shear_mask_empty: "shear_mask shp (transpose_points []) buff = Inl ValueError"
  by (simp add: shear_mask_def shear_line_def transpose_points_def)

lemma shear_mask_single: "shear_mask shp (transpose_points [p]) buff = Inl IndexError"
  by (simp add: shear_mask_def shear_line_def transpose_points_def diff_def)

lemma nonfinite_line:
  assumes "slope = PInf \<or> slope = NInf \<or> slope = NaN" "0 \<le> x0"
  shows "fadd (fmul (Fin (of_nat i)) slope)
              (fsub (fsub (Fin y0) (fmul (Fin (of_int x0)) slope)) (Fin b)) = NaN"
proof -
  consider "x0 = 0" | "0 < x0" using assms(2) by linarith
  then show ?thesis
  proof cases
    case 1
    then show ?thesis using assms(1) by (auto simp: finf_def fsub_def)
  next
    case 2
    then show ?thesis using assms(1) by (cases "i = 0") (auto simp: finf_def fsub_def)
  qed
qed

lemma keep_mask_no_positive:
  assumes "\<forall>x<n2. \<not> fpos (line_values n2 slope yint ! x)"
  shows "keep_mask (n0, n1, n2) slope yint = Inr (ones (n0, n1, n2))"
proof -
  have "filter (\<lambda>x. fpos (line_values n2 slope yint ! x)) [0..<n2] = []"
    using assms by (simp add: filter_empty_conv)
  then show ?thesis by (simp add: keep_mask_def Let_def)
qed

lemma shear_mask_vertical:
  assumes "fst p0 = fst p1" "0 \<le> fst p0"
  shows "shear_mask (n0, n1, n2) (transpose_points (p0 # p1 # rest)) buff = Inr (ones (n0, n1, n2))"
proof -
  let ?slope = "true_divide (snd p1 - snd p0) (fst p1 - fst p0)"
  let ?yint = "fsub (fsub (Fin (of_int (snd p0))) (fmul (Fin (of_int (fst p0))) ?slope))
                    (Fin (of_int buff))"
  have s: "?slope = PInf \<or> ?slope = NInf \<or> ?slope = NaN"
    using assms(1) by (simp add: true_divide_def)
  have "line_values n2 ?slope ?yint ! x = NaN" if "x < n2" for x
    using that nonfinite_line [OF s assms(2)] by (simp add: line_values_def)
  then have "\<forall>x<n2. \<not> fpos (line_values n2 ?slope ?yint ! x)" by simp
  from keep_mask_no_positive [OF this] show ?thesis
    by (simp add: shear_mask_def shear_line_two)
qed

lemma mul3_ones:
  assumes "rect3 n0 n1 n2 a"
  shows "mul3 (ones (n0, n1, n2)) a = a"
proof (rule rect3_ext [OF mul3_rect [OF ones_rect assms] assms])
  fix i j k assume b: "i < n0" "j < n1" "k < n2"
  show "mul3 (ones (n0, n1, n2)) a ! i ! j ! k = a ! i ! j ! k"
    using mul3_nth [OF ones_rect assms b] ones_nth [OF b] by simp
qed

text \<open>The two orientations succeed on arrays, and keep the shape.\<close>

lemma orient_xPS_ok:
  assumes "rect3 n0 n1 n2 (dataobj img)"
  shows "\<exists>d fl. orient_xPS axc img h = Inr (d, fl) \<and> length fl = 3 \<and>
           flip_axes (dataobj img) fl = Inr d \<and> rect3 n0 n1 n2 d"
proof -
  obtain a0 a1 a2 where a: "axc (affine img) = (a0, a1, a2)" by (cases "axc (affine img)")
  let ?fl = "[a0 \<noteq> Some h, a1 \<noteq> Some CHR ''P'', a2 \<noteq> Some CHR ''S'']"
  have "length ?fl = 3" by simp
  from flip_axes_rect [OF assms this] obtain d where
    d: "flip_axes (dataobj img) ?fl = Inr d" "rect3 n0 n1 n2 d" by blast
  have "orient_xPS axc img h = Inr (d, ?fl)"
    by (simp add: orient_xPS_def a Let_def d(1))
  then show ?thesis using d by auto
qed

lemma quickshear_degenerate:
  assumes "rect3 n0 n1 n2 (dataobj anat_img)" "rect3 n0 n1 n2 (dataobj mask_img)"
    "shape3 (dataobj mask_img) = (n0, n1, n2)"
    "orient_xPS axc mask_img CHR ''R'' = Inr (msk, fm)"
  shows "hull_points (edge_mask msk) = [] \<Longrightarrow>
           quickshear axc anat_img mask_img buff = Inl ValueError"
    and "hull_points (edge_mask msk) = p0 # p1 # rest \<Longrightarrow> fst p0 = fst p1 \<Longrightarrow>
           quickshear axc anat_img mask_img buff =
             Inr \<lparr>dataobj = dataobj anat_img, affine = affine anat_img, header = header anat_img\<rparr>"
proof -
  from orient_xPS_ok [OF assms(1), of axc "CHR ''R''"] obtain anat fa where
    a: "orient_xPS axc anat_img CHR ''R'' = Inr (anat, fa)" "length fa = 3"
       "flip_axes (dataobj anat_img) fa = Inr anat" "rect3 n0 n1 n2 anat"
    by blast
  from orient_xPS_ok [OF assms(2), of axc "CHR ''R''"] assms(4) have rm: "rect3 n0 n1 n2 msk"
    by auto
  have sm: "shape3 msk = (n0, n1, n2)"
    using rect3_shape_eq [OF rm assms(2)] assms(3) by simp
  show "quickshear axc anat_img mask_img buff = Inl ValueError"
    if "hull_points (edge_mask msk) = []"
    using that by (simp add: quickshear_def a(1) assms(4) convex_hull_def shear_mask_empty)
  show "quickshear axc anat_img mask_img buff =
      Inr \<lparr>dataobj = dataobj anat_img, affine = affine anat_img, header = header anat_img\<rparr>"
    if h: "hull_points (edge_mask msk) = p0 # p1 # rest" and v: "fst p0 = fst p1"
  proof -
    have "p0 \<in> set (hull_points (edge_mask msk))" using h by simp
    then have "0 \<le> fst p0" by (rule hull_points_nonneg)
    from shear_mask_vertical [OF v this]
    have k: "shear_mask (shape3 msk) (convex_hull (edge_mask msk)) buff = Inr (ones (n0, n1, n2))"
      by (simp add: sm convex_hull_def h)
    have f: "flip_axes (mul3 (ones (n0, n1, n2)) anat) fa = Inr (dataobj anat_img)"
      unfolding mul3_ones [OF a(4)] by (rule flip_axes_twice [OF a(2,3)])
    show ?thesis
      by (simp add: quickshear_def a(1) assms(4) k f)
  qed
qed

text \<open>
  C4, as amended. The program has no check of the hull. For array inputs of equal shape:
  when the hull is empty, unpacking the differences of the empty hull array raises
  ValueError, an uncaught exception (a hull array of one point raises IndexError at
  \<open>ydiffs[0]\<close>), which is not the exit of the shape check; when the leading hull segment
  has zero run, nothing is raised: the slope is infinite, every value of the line is NaN,
  no position has a positive value, no voxel is zeroed, and \<open>quickshear\<close> returns the
  anatomical volume unchanged.
\<close>

theorem degenerate_geometry:
  assumes "is_array3 (dataobj anat_img)" "is_array3 (dataobj mask_img)"
    "shape3 (dataobj anat_img) = shape3 (dataobj mask_img)"
    "orient_xPS aff2axcodes mask_img CHR ''R'' = Inr (msk, fm)"
    "hpts = hull_points (edge_mask msk)"
  shows "shear_mask shp (transpose_points [p]) buff = Inl IndexError \<and>
         (hpts = [] \<longrightarrow> quickshear aff2axcodes anat_img mask_img buff = Inl ValueError) \<and>
         (2 \<le> length hpts \<and> fst (hpts ! 0) = fst (hpts ! 1) \<longrightarrow>
            quickshear aff2axcodes anat_img mask_img buff =
              Inr \<lparr>dataobj = dataobj anat_img, affine = affine anat_img,
                   header = header anat_img\<rparr>)"
proof -
  obtain n0 n1 n2 where s: "shape3 (dataobj anat_img) = (n0, n1, n2)"
    by (cases "shape3 (dataobj anat_img)")
  have ra: "rect3 n0 n1 n2 (dataobj anat_img)"
    by (rule is_array3_rect [OF assms(1) s])
  have sm: "shape3 (dataobj mask_img) = (n0, n1, n2)" using assms(3) s by simp
  have rm: "rect3 n0 n1 n2 (dataobj mask_img)"
    by (rule is_array3_rect [OF assms(2) sm])
  note q = quickshear_degenerate [OF ra rm sm assms(4)]
  have "quickshear aff2axcodes anat_img mask_img buff =
          Inr \<lparr>dataobj = dataobj anat_img, affine = affine anat_img, header = header anat_img\<rparr>"
    if "2 \<le> length hpts" "fst (hpts ! 0) = fst (hpts ! 1)"
  proof -
    from that(1) obtain p0 p1 rest where h: "hpts = p0 # p1 # rest"
      by (cases hpts; cases "tl hpts") auto
    show ?thesis
      using q(2) [of p0 p1 rest buff] h that(2) assms(5) by simp
  qed
  then show ?thesis using q(1) [of buff] assms(5) by (simp add: shear_mask_single)
qed

text \<open>
  C4 as stated fails. A mask of shape \<open>(1, 1, 3)\<close> with one non-zero voxel has the edge
  points \<open>(0, 0), (0, 1), (0, 2)\<close> and the hull \<open>(0, 0), (0, 2)\<close>, whose leading segment is
  vertical. The slope is infinite and the intercept NaN; \<open>quickshear\<close> returns the
  anatomical volume as it was, and \<open>deface\<close> ends with exit status 0.
\<close>

theorem degenerate_geometry_counterexample:
  "hull_points (edge_mask [[[1, 0, 0]]]) = [(0, 0), (0, 2)] \<and>
   shear_line (convex_hull (edge_mask [[[1, 0, 0]]])) 10 = Inr (PInf, NaN) \<and>
   quickshear (\<lambda>_. (Some CHR ''R'', Some CHR ''P'', Some CHR ''S''))
     \<lparr>dataobj = [[[7, 8, 9]]], affine = (), header = ()\<rparr>
     \<lparr>dataobj = [[[1, 0, 0]]], affine = (), header = ()\<rparr> 10
   = Inr \<lparr>dataobj = [[[7, 8, 9]]], affine = (), header = ()\<rparr> \<and>
   exit_status (fst (deface (\<lambda>_. (Some CHR ''R'', Some CHR ''P'', Some CHR ''S''))
       \<lparr>files = [''a'' \<mapsto> \<lparr>dataobj = [[[7, 8, 9]]], affine = (), header = ()\<rparr>,
                 ''m'' \<mapsto> \<lparr>dataobj = [[[1, 0, 0]]], affine = (), header = ()\<rparr>],
         logged = []\<rparr> ''a'' ''m'' ''o'' 10)) = 0"
  by code_simp

theorem degenerate_geometry_witness:
  "quickshear (\<lambda>_. (Some CHR ''R'', Some CHR ''P'', Some CHR ''S''))
     \<lparr>dataobj = [[[7, 8, 9]]], affine = (), header = ()\<rparr>
     \<lparr>dataobj = [[[1, 0, 0]]], affine = (), header = ()\<rparr> 10
   = Inr \<lparr>dataobj = [[[7, 8, 9]]], affine = (), header = ()\<rparr> \<and>
   quickshear (\<lambda>_. (Some CHR ''R'', Some CHR ''P'', Some CHR ''S''))
     \<lparr>dataobj = [[[7, 8, 9]]], affine = (), header = ()\<rparr>
     \<lparr>dataobj = [[[0, 0, 0]]], affine = (), header = ()\<rparr> 10
   = Inl ValueError"
proof -
  let ?ax = "\<lambda>_ :: unit. (Some CHR ''R'', Some CHR ''P'', Some CHR ''S'')"
  let ?A = "\<lparr>dataobj = [[[7, 8, 9 :: int]]], affine = (), header = ()\<rparr>"
  let ?M = "\<lparr>dataobj = [[[1, 0, 0 :: int]]], affine = (), header = ()\<rparr>"
  let ?Z = "\<lparr>dataobj = [[[0, 0, 0 :: int]]], affine = (), header = ()\<rparr>"
  have a: "is_array3 (dataobj ?A)" "is_array3 (dataobj ?M)" "is_array3 (dataobj ?Z)"
    by (simp_all add: is_array3_def shape3_def rect3_def rect2_def)
  have s: "shape3 (dataobj ?A) = shape3 (dataobj ?M)" "shape3 (dataobj ?A) = shape3 (dataobj ?Z)"
    by (simp_all add: shape3_def)
  have om: "orient_xPS ?ax ?M CHR ''R'' = Inr ([[[1, 0, 0]]], [False, False, False])"
    by code_simp
  have oz: "orient_xPS ?ax ?Z CHR ''R'' = Inr ([[[0, 0, 0]]], [False, False, False])"
    by code_simp
  have hm: "[(0, 0), (0, 2)] = hull_points (edge_mask [[[1, 0, 0]]])" by code_simp
  have hz: "[] = hull_points (edge_mask [[[0, 0, 0]]])" by code_simp
  from degenerate_geometry [OF a(1,2) s(1) om hm, of _ _ 10]
  have 1: "quickshear ?ax ?A ?M 10 = Inr ?A" by simp
  from degenerate_geometry [OF a(1,3) s(2) oz hz, of _ _ 10]
  have 2: "quickshear ?ax ?A ?Z 10 = Inl ValueError" by simp
  from 1 2 show ?thesis by simp
qed

end
